theory Spec2Isabelle
  imports Main "HOL-Library.Word" "HOL-Library.Signed_Division"
begin

section \<open>Configuration\<close>

text \<open>
  The \<^verbatim>\<open>Config\<close> struct of the package. Its integer fields are Go \<^verbatim>\<open>int\<close>s; the code
  only compares them with constants and assigns constants to them, so the model keeps their
  mathematical value. The zero value of the struct is what \<^verbatim>\<open>var config Config\<close> yields.
\<close>

record Config =
  LocalAddr :: string
  RemoteAddr :: string
  Mode :: string
  Conn :: int
  MTU :: int
  SndWnd :: int
  RcvWnd :: int
  DataShard :: int
  ParityShard :: int
  AckNodelay :: bool
  SockBuf :: int
  SmuxVer :: int
  SmuxBuf :: int
  FrameSize :: int
  StreamBuf :: int
  KeepAlive :: int
  NoDelay :: int
  Interval :: int
  Resend :: int
  NoCongestion :: int
  NoComp :: bool

definition zeroConfig :: Config where
  "zeroConfig =
     \<lparr>LocalAddr = [], RemoteAddr = [], Mode = [], Conn = 0, MTU = 0, SndWnd = 0, RcvWnd = 0,
      DataShard = 0, ParityShard = 0, AckNodelay = False, SockBuf = 0, SmuxVer = 0, SmuxBuf = 0,
      FrameSize = 0, StreamBuf = 0, KeepAlive = 0, NoDelay = 0, Interval = 0, Resend = 0,
      NoCongestion = 0, NoComp = False\<rparr>"

definition maxSmuxVer :: int where
  "maxSmuxVer = 2"

text \<open>
  \<^verbatim>\<open>applyDefaults\<close>: a sequence of guarded assignments, each of which reads and writes one
  field only, in the order of the source; the last assignment is unconditional.
\<close>

definition applyDefaults :: "Config \<Rightarrow> Config" where
  "applyDefaults config =
     config\<lparr>LocalAddr := (if LocalAddr config = [] then ''127.0.0.1:1080'' else LocalAddr config),
            Conn := (if Conn config \<le> 0 then 1 else Conn config),
            MTU := (if MTU config \<le> 0 then 1350 else MTU config),
            SndWnd := (if SndWnd config \<le> 0 then 128 else SndWnd config),
            RcvWnd := (if RcvWnd config \<le> 0 then 512 else RcvWnd config),
            DataShard := (if DataShard config \<le> 0 then 10 else DataShard config),
            ParityShard := (if ParityShard config \<le> 0 then 3 else ParityShard config),
            SmuxVer := (if SmuxVer config \<le> 0 then 1 else SmuxVer config),
            SmuxBuf := (if SmuxBuf config \<le> 0 then 4194304 else SmuxBuf config),
            StreamBuf := (if StreamBuf config \<le> 0 then 2097152 else StreamBuf config),
            FrameSize := (if FrameSize config \<le> 0 then 4096 else FrameSize config),
            KeepAlive := (if KeepAlive config \<le> 0 then 10 else KeepAlive config),
            SockBuf := (if SockBuf config \<le> 0 then 4194304 else SockBuf config),
            Mode := (if Mode config = [] then ''fast'' else Mode config),
            NoComp := True\<rparr>"

text \<open>\<^verbatim>\<open>applyMode\<close>: the \<^verbatim>\<open>switch\<close> on the mode string, with its \<^verbatim>\<open>default\<close> branch.\<close>

definition setNoDelay :: "int \<Rightarrow> int \<Rightarrow> int \<Rightarrow> int \<Rightarrow> Config \<Rightarrow> Config" where
  "setNoDelay nd iv rs nc config =
     config\<lparr>NoDelay := nd, Interval := iv, Resend := rs, NoCongestion := nc\<rparr>"

definition applyMode :: "Config \<Rightarrow> Config" where
  "applyMode config =
     (if Mode config = ''normal'' then setNoDelay 0 40 2 1 config
      else if Mode config = ''fast'' then setNoDelay 0 30 2 1 config
      else if Mode config = ''fast2'' then setNoDelay 1 20 2 1 config
      else if Mode config = ''fast3'' then setNoDelay 1 10 2 1 config
      else setNoDelay 0 30 2 1 config)"

text \<open>Decimal printing, for the \<^verbatim>\<open>%d\<close> verb of \<^verbatim>\<open>fmt.Errorf\<close>.\<close>

fun digits :: "nat \<Rightarrow> string" where
  "digits n =
     (if n < 10 then [char_of (48 + n)]
      else digits (n div 10) @ [char_of (48 + n mod 10)])"

declare digits.simps [simp del]

definition itoa :: "int \<Rightarrow> string" where
  "itoa i = (if i < 0 then CHR ''-'' # digits (nat (- i)) else digits (nat i))"

text \<open>\<^verbatim>\<open>validateConfig\<close>: \<open>None\<close> is the \<^verbatim>\<open>nil\<close> error, \<open>Some msg\<close> an error with that text.\<close>

definition validateConfig :: "Config \<Rightarrow> string option" where
  "validateConfig config =
     (if RemoteAddr config = [] then Some ''remoteaddr is required''
      else if Conn config \<le> 0 then Some ''conn must be greater than 0''
      else if SmuxVer config > maxSmuxVer
        then Some (''unsupported smux version: '' @ itoa (SmuxVer config))
      else None)"

section \<open>The outside world\<close>

text \<open>
  The standard library, the transport (\<^verbatim>\<open>kcp\<close>) and the multiplexer (\<^verbatim>\<open>smux\<close>) are not
  part of the package. What they answer is an oracle, one entry per call:
  \<open>None\<close> stands for a \<^verbatim>\<open>nil\<close> error, \<open>Some msg\<close> for an error whose text is \<open>msg\<close>.
  The calls of \<^verbatim>\<open>net.Listen\<close> and of \<^verbatim>\<open>createSession\<close> are numbered from 0; the number of
  the call is also the identity of the listener or of the session that the call produces.
\<close>

record env =
  json_Unmarshal :: "string \<Rightarrow> string + Config"
  net_Listen :: "nat \<Rightarrow> string \<Rightarrow> string option"
  kcp_Dial :: "nat \<Rightarrow> Config \<Rightarrow> string option"
  smux_VerifyConfig :: "Config \<Rightarrow> string option"
  smux_Client :: "nat \<Rightarrow> Config \<Rightarrow> string option"

text \<open>A channel variable of type \<^verbatim>\<open>chan struct{}\<close> on which nothing is ever sent.\<close>

datatype chan = ChanNil | ChanOpen | ChanClosed

text \<open>
  The package-level variables (\<^verbatim>\<open>proxyMu\<close> is left out: every function below is one critical
  section), followed by the resources of the process: how many times \<^verbatim>\<open>net.Listen\<close> and
  \<^verbatim>\<open>createSession\<close> have been called, which listeners and which sessions (each with the
  transport connection under it) are open, and how many accept loops \<^verbatim>\<open>go acceptLoop()\<close>
  has started.
\<close>

record state =
  proxyListener :: "nat option"
  proxySessions :: "nat option list"
  proxyRunning :: bool
  proxyConfig :: "Config option"
  stopChan :: chan
  listens :: nat
  open_listeners :: "nat set"
  dials :: nat
  open_sessions :: "nat set"
  acceptLoops :: nat

definition init_state :: state where
  "init_state =
     \<lparr>proxyListener = None, proxySessions = [], proxyRunning = False, proxyConfig = None,
      stopChan = ChanNil, listens = 0, open_listeners = {}, dials = 0, open_sessions = {},
      acceptLoops = 0\<rparr>"

definition closeSession :: "nat \<Rightarrow> state \<Rightarrow> state" where
  "closeSession sid s = s\<lparr>open_sessions := open_sessions s - {sid}\<rparr>"

definition closeListener :: "nat \<Rightarrow> state \<Rightarrow> state" where
  "closeListener l s = s\<lparr>open_listeners := open_listeners s - {l}\<rparr>"

definition IsClosed :: "nat \<Rightarrow> state \<Rightarrow> bool" where
  "IsClosed sid s = (sid \<notin> open_sessions s)"

section \<open>Sessions\<close>

text \<open>
  \<^verbatim>\<open>createSession\<close>: dial, tune (no effect on the model), verify the multiplexer
  configuration, start the client session. After a successful dial both failure paths close
  the transport connection again. The result is \<open>Inl\<close> the error text or \<open>Inr\<close> the session.
\<close>

definition createSession :: "env \<Rightarrow> Config \<Rightarrow> state \<Rightarrow> (string + nat) \<times> state" where
  "createSession e config s =
     (let n = dials s; s1 = s\<lparr>dials := Suc n\<rparr> in
      case kcp_Dial e n config of
        Some err \<Rightarrow> (Inl err, s1)
      | None \<Rightarrow>
          (let s2 = s1\<lparr>open_sessions := insert n (open_sessions s1)\<rparr> in
           case smux_VerifyConfig e config of
             Some err \<Rightarrow> (Inl err, closeSession n s2)
           | None \<Rightarrow>
               (case smux_Client e n config of
                  Some err \<Rightarrow> (Inl err, closeSession n s2)
                | None \<Rightarrow> (Inr n, s2))))"

section \<open>The controller\<close>

text \<open>
  The loop of \<^verbatim>\<open>StartProxy\<close> that fills the pool, from slot \<open>i\<close> on (\<open>i\<close> counts up
  from 0, so it is a natural number). \<open>l\<close> is the listener that \<^verbatim>\<open>proxyListener\<close> holds at
  this point. The slice has \<^verbatim>\<open>config.Conn\<close> slots, so the store into slot \<open>i\<close> is always in
  range.
\<close>

function populate :: "env \<Rightarrow> Config \<Rightarrow> nat \<Rightarrow> nat \<Rightarrow> state \<Rightarrow> string option \<times> state" where
  "populate e config l i s =
     (if int i < Conn config then
        (case createSession e config s of
           (Inl err, s') \<Rightarrow> (Some err, closeListener l s')
         | (Inr session, s') \<Rightarrow>
             populate e config l (Suc i)
               (s'\<lparr>proxySessions := (proxySessions s')[i := Some session]\<rparr>))
      else (None, s))"
  by pat_completeness auto
termination
  by (relation "measure (\<lambda>(e, config, l, i, s). nat (Conn config) - i)") auto

declare populate.simps [simp del]

text \<open>
  \<^verbatim>\<open>StartProxy\<close> returns the string for the host and the new state. On a listen error
  \<^verbatim>\<open>net.Listen\<close> has returned a \<^verbatim>\<open>nil\<close> listener, which the assignment stores. The pool is a
  list of \<^verbatim>\<open>config.Conn\<close> empty slots; memory is not bounded in the model, so \<^verbatim>\<open>make\<close> never
  fails.
\<close>

definition StartProxy :: "env \<Rightarrow> string \<Rightarrow> state \<Rightarrow> string \<times> state" where
  "StartProxy e configJson s =
     (if proxyRunning s then (''Proxy already running'', s)
      else
        case json_Unmarshal e configJson of
          Inl err \<Rightarrow> (''Config Error: '' @ err, s)
        | Inr config0 \<Rightarrow>
            (let config = applyMode (applyDefaults config0) in
             case validateConfig config of
               Some err \<Rightarrow> (''Validate Error: '' @ err, s)
             | None \<Rightarrow>
                 (let l = listens s; s1 = s\<lparr>listens := Suc l\<rparr> in
                  case net_Listen e l (LocalAddr config) of
                    Some err \<Rightarrow> (''Listen Error: '' @ err, s1\<lparr>proxyListener := None\<rparr>)
                  | None \<Rightarrow>
                      (let s2 = s1\<lparr>proxyListener := Some l,
                                    open_listeners := insert l (open_listeners s1),
                                    proxySessions := replicate (nat (Conn config)) None\<rparr> in
                       case populate e config l 0 s2 of
                         (Some err, s3) \<Rightarrow> (''Session Error: '' @ err, s3)
                       | (None, s3) \<Rightarrow>
                           ([], s3\<lparr>proxyConfig := Some config, proxyRunning := True,
                                    stopChan := ChanOpen,
                                    acceptLoops := Suc (acceptLoops s3)\<rparr>)))))"

text \<open>
  \<^verbatim>\<open>StopProxy\<close>. \<^verbatim>\<open>close(stopChan)\<close> panics on a nil or closed channel; \<open>Inl\<close> is that
  panic, \<open>Inr\<close> the state after a normal return.
\<close>

definition closeAll :: "nat option list \<Rightarrow> state \<Rightarrow> state" where
  "closeAll sessions s =
     foldl (\<lambda>s session. case session of None \<Rightarrow> s | Some sid \<Rightarrow> closeSession sid s) s sessions"

definition StopProxy :: "state \<Rightarrow> string + state" where
  "StopProxy s =
     (if \<not> proxyRunning s then Inr s
      else
        (let s1 = s\<lparr>proxyRunning := False\<rparr> in
         case stopChan s1 of
           ChanNil \<Rightarrow> Inl ''close of nil channel''
         | ChanClosed \<Rightarrow> Inl ''close of closed channel''
         | ChanOpen \<Rightarrow>
             (let s2 = s1\<lparr>stopChan := ChanClosed\<rparr>;
                  s3 = (case proxyListener s2 of
                          None \<Rightarrow> s2
                        | Some l \<Rightarrow> (closeListener l s2)\<lparr>proxyListener := None\<rparr>);
                  s4 = closeAll (proxySessions s3) s3
              in Inr (s4\<lparr>proxySessions := [], proxyConfig := None\<rparr>))))"

definition IsRunning :: "state \<Rightarrow> bool" where
  "IsRunning s = proxyRunning s"

section \<open>The accept loop\<close>

text \<open>
  What \<^verbatim>\<open>proxyListener.Accept()\<close> returns: a connection (named by a number) or an error.
  One input of the loop is that result together with the sessions that the peer or the
  network closed while the loop was blocked in \<^verbatim>\<open>Accept\<close>.
\<close>

datatype accept_result = AcceptConn nat | AcceptError string

type_synonym arrival = "nat list \<times> accept_result"

text \<open>
  What the loop does with an accept result:
  \<open>Forward conn idx session\<close> is \<^verbatim>\<open>go handleClient(conn, session)\<close> for the session of slot
  \<open>idx\<close>; \<open>Drop conn idx\<close> is the \<^verbatim>\<open>conn.Close()\<close> after a failed reconnect of slot \<open>idx\<close>;
  \<open>Refuse conn\<close> is the \<^verbatim>\<open>conn.Close()\<close> of a loop that finds the proxy stopped;
  \<open>AcceptFailed\<close> is a logged accept error.
\<close>

datatype action =
    Forward nat nat nat
  | Drop nat nat
  | Refuse nat
  | AcceptFailed string

text \<open>
  One pass through the body of the \<^verbatim>\<open>for\<close> loop ends in \<^verbatim>\<open>continue\<close> or at the end of the
  body (\<open>Next\<close>, with the new counter), in \<^verbatim>\<open>return\<close>, or in a run-time panic.
  The counter \<^verbatim>\<open>rr\<close> is a Go \<^verbatim>\<open>int\<close>, taken here at 64 bits: \<^verbatim>\<open>rr++\<close> wraps, \<^verbatim>\<open>%\<close> is the
  remainder of the truncated division, and a negative index panics.
\<close>

datatype step =
    Next action "64 word" state
  | Return "action list" state
  | Panic string state

text \<open>The reconnect of slot \<open>idx\<close>: the body of \<^verbatim>\<open>if session == nil || session.IsClosed()\<close>.\<close>

definition reconnect :: "env \<Rightarrow> nat \<Rightarrow> nat \<Rightarrow> 64 word \<Rightarrow> state \<Rightarrow> step" where
  "reconnect e conn idx rr' s =
     (case proxyConfig s of
        None \<Rightarrow> Panic ''nil pointer dereference'' s
      | Some config \<Rightarrow>
          (case createSession e config s of
             (Inl err, s') \<Rightarrow> Next (Drop conn idx) rr' s'
           | (Inr newSession, s') \<Rightarrow>
               Next (Forward conn idx newSession) rr'
                 (s'\<lparr>proxySessions := (proxySessions s')[idx := Some newSession]\<rparr>)))"

text \<open>The part of the body under \<^verbatim>\<open>proxyMu\<close>, for an accepted connection.\<close>

definition dispatch :: "env \<Rightarrow> nat \<Rightarrow> 64 word \<Rightarrow> state \<Rightarrow> step" where
  "dispatch e conn rr s =
     (if \<not> proxyRunning s then Return [Refuse conn] s
      else if proxySessions s = [] then Panic ''integer divide by zero'' s
      else
        (let idx = sint rr smod int (length (proxySessions s));
             rr' = rr + 1
         in if idx < 0 then Panic ''index out of range'' s
            else
              (case proxySessions s ! nat idx of
                 None \<Rightarrow> reconnect e conn (nat idx) rr' s
               | Some session \<Rightarrow>
                   if IsClosed session s then reconnect e conn (nat idx) rr' s
                   else Next (Forward conn (nat idx) session) rr' s)))"

definition peerCloses :: "nat list \<Rightarrow> state \<Rightarrow> state" where
  "peerCloses sids s = foldl (\<lambda>s sid. closeSession sid s) s sids"

definition iteration :: "env \<Rightarrow> arrival \<Rightarrow> 64 word \<Rightarrow> state \<Rightarrow> step" where
  "iteration e inp rr s =
     (if stopChan s = ChanClosed then Return [] s
      else
        (let s1 = peerCloses (fst inp) s in
         case snd inp of
           AcceptError err \<Rightarrow>
             if stopChan s1 = ChanClosed then Return [] s1 else Next (AcceptFailed err) rr s1
         | AcceptConn conn \<Rightarrow> dispatch e conn rr s1))"

text \<open>
  The loop over the arrivals. It never ends by itself: when the arrivals are used up it is
  \<open>Blocked\<close> in \<^verbatim>\<open>Accept\<close>. The result is what the loop did, how it ended, its counter and
  the state. The model follows one accept loop; what other goroutines do (a call of
  \<^verbatim>\<open>StopProxy\<close>, say) happens between two runs of it, each run starting from the counter and
  the state that are given to it.
\<close>

datatype loop_end = Blocked | Returned | Panicked string

fun acceptLoop_from ::
  "env \<Rightarrow> arrival list \<Rightarrow> 64 word \<Rightarrow> state \<Rightarrow> action list \<times> loop_end \<times> 64 word \<times> state" where
  "acceptLoop_from e [] rr s = ([], Blocked, rr, s)"
| "acceptLoop_from e (inp # inps) rr s =
     (case iteration e inp rr s of
        Next a rr' s' \<Rightarrow>
          (case acceptLoop_from e inps rr' s' of (as, r) \<Rightarrow> (a # as, r))
      | Return as s' \<Rightarrow> (as, Returned, rr, s')
      | Panic msg s' \<Rightarrow> ([], Panicked msg, rr, s'))"

definition acceptLoop :: "env \<Rightarrow> arrival list \<Rightarrow> state \<Rightarrow> action list \<times> loop_end \<times> 64 word \<times> state" where
  "acceptLoop e inps s = acceptLoop_from e inps 0 s"

section \<open>The forwarder\<close>

text \<open>
  \<^verbatim>\<open>handleClient\<close> runs three goroutines: its own, the copy from the stream \<^verbatim>\<open>p2\<close> to the
  local connection \<^verbatim>\<open>p1\<close>, and the copy from \<^verbatim>\<open>p1\<close> to \<^verbatim>\<open>p2\<close>. Each has a program counter
  that names the statement it executes next; a schedule says which goroutine moves. An
  \<^verbatim>\<open>io.Copy\<close> returns when its goroutine is scheduled at \<open>Copying\<close>, so a schedule that
  leaves a copy out is a run in which that direction never ends.
\<close>

datatype stream_state = NotOpened | StreamOpen | StreamClosed

datatype main_pc = AtOpenStream | AtAdd | AtGo1 | AtGo2 | AtWait | AtDeferP2 | AtDeferP1 | Finished

datatype copier_pc = NotStarted | Copying | AfterCopy | AtDone | Exited

datatype thread = Main | StreamToLocal | LocalToStream

record forwarder =
  main :: main_pc
  s2l :: copier_pc
  l2s :: copier_pc
  wg :: int
  p1_closed :: bool
  p1_read_closed :: bool
  p2 :: stream_state

definition forwarder_init :: forwarder where
  "forwarder_init =
     \<lparr>main = AtOpenStream, s2l = NotStarted, l2s = NotStarted, wg = 0, p1_closed = False,
      p1_read_closed = False, p2 = NotOpened\<rparr>"

text \<open>
  The goroutine of \<^verbatim>\<open>handleClient\<close> itself. \<open>open_ok\<close> says whether \<^verbatim>\<open>session.OpenStream()\<close>
  succeeds. \<^verbatim>\<open>wg.Wait()\<close> can only be passed when the counter is 0; the deferred calls run
  last in, first out: \<^verbatim>\<open>p2.Close()\<close>, then \<^verbatim>\<open>p1.Close()\<close>.
\<close>

definition main_step :: "bool \<Rightarrow> forwarder \<Rightarrow> forwarder" where
  "main_step open_ok f =
     (case main f of
        AtOpenStream \<Rightarrow>
          if open_ok then f\<lparr>p2 := StreamOpen, main := AtAdd\<rparr>
          else f\<lparr>p1_closed := True, main := Finished\<rparr>
      | AtAdd \<Rightarrow> f\<lparr>wg := wg f + 2, main := AtGo1\<rparr>
      | AtGo1 \<Rightarrow> f\<lparr>s2l := Copying, main := AtGo2\<rparr>
      | AtGo2 \<Rightarrow> f\<lparr>l2s := Copying, main := AtWait\<rparr>
      | AtWait \<Rightarrow> if wg f = 0 then f\<lparr>main := AtDeferP2\<rparr> else f
      | AtDeferP2 \<Rightarrow> f\<lparr>p2 := StreamClosed, main := AtDeferP1\<rparr>
      | AtDeferP1 \<Rightarrow> f\<lparr>p1_closed := True, main := Finished\<rparr>
      | Finished \<Rightarrow> f)"

text \<open>
  The goroutine \<^verbatim>\<open>p2 -> p1\<close>: \<^verbatim>\<open>io.Copy(p1, p2)\<close>, then \<^verbatim>\<open>CloseRead\<close> when \<^verbatim>\<open>p1\<close> is a
  \<^verbatim>\<open>*net.TCPConn\<close> (\<open>is_tcp\<close>), then the deferred \<^verbatim>\<open>wg.Done()\<close>.
\<close>

definition s2l_step :: "bool \<Rightarrow> forwarder \<Rightarrow> forwarder" where
  "s2l_step is_tcp f =
     (case s2l f of
        NotStarted \<Rightarrow> f
      | Copying \<Rightarrow> f\<lparr>s2l := AfterCopy\<rparr>
      | AfterCopy \<Rightarrow>
          if is_tcp then f\<lparr>p1_read_closed := True, s2l := AtDone\<rparr> else f\<lparr>s2l := AtDone\<rparr>
      | AtDone \<Rightarrow> f\<lparr>wg := wg f - 1, s2l := Exited\<rparr>
      | Exited \<Rightarrow> f)"

text \<open>The goroutine \<^verbatim>\<open>p1 -> p2\<close>: \<^verbatim>\<open>io.Copy(p2, p1)\<close>, \<^verbatim>\<open>p2.Close()\<close>, \<^verbatim>\<open>wg.Done()\<close>.\<close>

definition l2s_step :: "forwarder \<Rightarrow> forwarder" where
  "l2s_step f =
     (case l2s f of
        NotStarted \<Rightarrow> f
      | Copying \<Rightarrow> f\<lparr>l2s := AfterCopy\<rparr>
      | AfterCopy \<Rightarrow> f\<lparr>p2 := StreamClosed, l2s := AtDone\<rparr>
      | AtDone \<Rightarrow> f\<lparr>wg := wg f - 1, l2s := Exited\<rparr>
      | Exited \<Rightarrow> f)"

definition forwarder_step :: "bool \<Rightarrow> bool \<Rightarrow> thread \<Rightarrow> forwarder \<Rightarrow> forwarder" where
  "forwarder_step open_ok is_tcp t f =
     (case t of
        Main \<Rightarrow> main_step open_ok f
      | StreamToLocal \<Rightarrow> s2l_step is_tcp f
      | LocalToStream \<Rightarrow> l2s_step f)"

fun forwarder_run :: "bool \<Rightarrow> bool \<Rightarrow> thread list \<Rightarrow> forwarder \<Rightarrow> forwarder" where
  "forwarder_run open_ok is_tcp [] f = f"
| "forwarder_run open_ok is_tcp (t # ts) f =
     forwarder_run open_ok is_tcp ts (forwarder_step open_ok is_tcp t f)"

definition handleClient :: "bool \<Rightarrow> bool \<Rightarrow> thread list \<Rightarrow> forwarder" where
  "handleClient open_ok is_tcp sched = forwarder_run open_ok is_tcp sched forwarder_init"

section \<open>Notions used in the statements\<close>

text \<open>The four numbers that a mode stands for, in the order of \<^verbatim>\<open>SetNoDelay\<close>.\<close>

definition tuning :: "Config \<Rightarrow> int \<times> int \<times> int \<times> int" where
  "tuning c = (NoDelay c, Interval c, Resend c, NoCongestion c)"

text \<open>Substrings, as \<^verbatim>\<open>strings.Contains\<close> decides them.\<close>

fun is_prefix :: "string \<Rightarrow> string \<Rightarrow> bool" where
  "is_prefix [] ys = True"
| "is_prefix (x # xs) [] = False"
| "is_prefix (x # xs) (y # ys) = (x = y \<and> is_prefix xs ys)"

fun contains :: "string \<Rightarrow> string \<Rightarrow> bool" where
  "contains [] sub = (sub = [])"
| "contains (c # cs) sub = (is_prefix sub (c # cs) \<or> contains cs sub)"

text \<open>
  The document of the scenario with an empty remote address: an object with the two members
  \<^verbatim>\<open>remoteaddr\<close> (the empty string) and \<^verbatim>\<open>localaddr\<close> (\<^verbatim>\<open>127.0.0.1:0\<close>). \<open>quoted\<close> puts a
  string between double quotes.
\<close>

definition quoted :: "string \<Rightarrow> string" where
  "quoted str = CHR 0x22 # str @ [CHR 0x22]"

definition scenario_json :: string where
  "scenario_json =
     ''{'' @ quoted ''remoteaddr'' @ '':'' @ quoted [] @ '','' @
     quoted ''localaddr'' @ '':'' @ quoted ''127.0.0.1:0'' @ ''}''"

text \<open>
  Sample worlds for the worked examples: the decoder answers \<open>config\<close> for every document,
  \<^verbatim>\<open>net.Listen\<close> succeeds, the multiplexer accepts the configuration, and \<open>dial\<close> gives the
  outcome of each call of \<^verbatim>\<open>kcp.DialWithOptions\<close>.
\<close>

definition sample_env :: "Config \<Rightarrow> (nat \<Rightarrow> string option) \<Rightarrow> env" where
  "sample_env config dial =
     \<lparr>json_Unmarshal = (\<lambda>doc. Inr config), net_Listen = (\<lambda>n addr. None),
      kcp_Dial = (\<lambda>n c. dial n), smux_VerifyConfig = (\<lambda>c. None),
      smux_Client = (\<lambda>n c. None)\<rparr>"

definition remote_config :: "int \<Rightarrow> Config" where
  "remote_config n = zeroConfig\<lparr>RemoteAddr := ''1.2.3.4:4000'', Conn := n\<rparr>"

text \<open>A decoder that knows the document of the scenario and rejects every other one.\<close>

definition scenario_env :: env where
  "scenario_env =
     (sample_env zeroConfig (\<lambda>n. None))
       \<lparr>json_Unmarshal :=
          (\<lambda>doc. if doc = scenario_json then Inr (zeroConfig\<lparr>LocalAddr := ''127.0.0.1:0''\<rparr>)
                 else Inl ''unexpected end of JSON input'')\<rparr>"

text \<open>
  The states in which an accept loop can dispatch: the proxy is running, the stop channel is
  open, the pool has a slot, and the configuration and the listener are set.
\<close>

definition running_ok :: "state \<Rightarrow> bool" where
  "running_ok s \<longleftrightarrow>
     proxyRunning s \<and> stopChan s = ChanOpen \<and> proxySessions s \<noteq> [] \<and>
     proxyConfig s \<noteq> None \<and> proxyListener s \<noteq> None"

text \<open>
  The states that the process can reach from its start: by calls of \<^verbatim>\<open>StartProxy\<close> and
  \<^verbatim>\<open>StopProxy\<close> that return, by passes of an accept loop, whatever its counter, and by
  sessions that the peer closes.
\<close>

inductive reachable :: "env \<Rightarrow> state \<Rightarrow> bool" for e :: env where
  reach_init: "reachable e init_state"
| reach_start: "reachable e s \<Longrightarrow> StartProxy e configJson s = (res, s') \<Longrightarrow> reachable e s'"
| reach_stop: "reachable e s \<Longrightarrow> StopProxy s = Inr s' \<Longrightarrow> reachable e s'"
| reach_next: "reachable e s \<Longrightarrow> iteration e inp rr s = Next a rr' s' \<Longrightarrow> reachable e s'"
| reach_return: "reachable e s \<Longrightarrow> iteration e inp rr s = Return as s' \<Longrightarrow> reachable e s'"
| reach_close: "reachable e s \<Longrightarrow> reachable e (peerCloses sids s)"

text \<open>
  What is true of every reachable state: a running proxy can dispatch, and every open session
  and every open listener has been created, so that the next identity is fresh.
\<close>

definition consistent :: "state \<Rightarrow> bool" where
  "consistent s \<longleftrightarrow>
     (proxyRunning s \<longrightarrow> running_ok s) \<and>
     (\<forall>sid \<in> open_sessions s. sid < dials s) \<and>
     (\<forall>l \<in> open_listeners s. l < listens s)"

text \<open>
  The connection and the slot of a dispatch, the connections that a list of arrivals
  brings, in accept order, and the assignment that gives slot \<open>k mod N\<close> to the \<open>k\<close>-th of
  them, counting from \<open>k0\<close>.
\<close>

fun assigned :: "action \<Rightarrow> (nat \<times> nat) option" where
  "assigned (Forward conn idx session) = Some (conn, idx)"
| "assigned (Drop conn idx) = Some (conn, idx)"
| "assigned (Refuse conn) = None"
| "assigned (AcceptFailed err) = None"

fun assignments :: "action list \<Rightarrow> (nat \<times> nat) list" where
  "assignments [] = []"
| "assignments (a # as) =
     (case assigned a of None \<Rightarrow> assignments as | Some ci \<Rightarrow> ci # assignments as)"

fun accepted :: "arrival list \<Rightarrow> nat list" where
  "accepted [] = []"
| "accepted ((closed, AcceptConn conn) # inps) = conn # accepted inps"
| "accepted ((closed, AcceptError err) # inps) = accepted inps"

fun round_robin :: "nat \<Rightarrow> nat \<Rightarrow> nat list \<Rightarrow> (nat \<times> nat) list" where
  "round_robin N k0 [] = []"
| "round_robin N k0 (conn # conns) = (conn, k0 mod N) # round_robin N (Suc k0) conns"

text \<open>
  The values of the 64-bit counter at which a dispatch can still take place, for a pool of
  \<open>N\<close> slots, after \<open>k\<close> accepted connections: any value when there is one slot; up to
  \<open>2 ^ 63\<close>, where the counter has wrapped to its least value; and one more when \<open>N\<close> divides
  that value.
\<close>

definition counter_ok :: "nat \<Rightarrow> nat \<Rightarrow> bool" where
  "counter_ok N k \<longleftrightarrow> N = 1 \<or> k \<le> 2 ^ 63 \<or> (k = 2 ^ 63 + 1 \<and> N dvd 2 ^ 63)"

text \<open>The sessions that the peer closes somewhere in a list of arrivals.\<close>

definition closed_meanwhile :: "arrival list \<Rightarrow> nat set" where
  "closed_meanwhile inps = (\<Union>inp \<in> set inps. set (fst inp))"

text \<open>The state in which a pass through the loop body ends.\<close>

fun state_of :: "step \<Rightarrow> state" where
  "state_of (Next a rr s) = s"
| "state_of (Return as s) = s"
| "state_of (Panic msg s) = s"

text \<open>
  What a pass through the loop body leaves as it is: it touches no variable of the controller
  except slots of the pool, whose number stays, and the only sessions it can open are the
  ones it creates.
\<close>

definition loop_frame :: "state \<Rightarrow> state \<Rightarrow> bool" where
  "loop_frame s s' \<longleftrightarrow>
     proxyListener s' = proxyListener s \<and> proxyRunning s' = proxyRunning s \<and>
     proxyConfig s' = proxyConfig s \<and> stopChan s' = stopChan s \<and>
     listens s' = listens s \<and> open_listeners s' = open_listeners s \<and>
     acceptLoops s' = acceptLoops s \<and>
     length (proxySessions s') = length (proxySessions s) \<and>
     dials s \<le> dials s' \<and> open_sessions s' \<subseteq> open_sessions s \<union> {dials s..<dials s'}"

text \<open>The test \<^verbatim>\<open>session == nil || session.IsClosed()\<close> on the session of slot \<open>idx\<close>.\<close>

definition slot_dead :: "state \<Rightarrow> nat \<Rightarrow> bool" where
  "slot_dead s idx =
     (case proxySessions s ! idx of None \<Rightarrow> True | Some session \<Rightarrow> IsClosed session s)"

text \<open>
  An action keeps session \<open>sid\<close> in slot \<open>idx\<close> when it is not a reconnect of that slot: a
  forward from slot \<open>idx\<close> uses \<open>sid\<close>, and no connection of slot \<open>idx\<close> is dropped.
\<close>

fun keeps :: "nat \<Rightarrow> nat \<Rightarrow> action \<Rightarrow> bool" where
  "keeps idx sid (Forward conn i session) = (if i = idx then session = sid else True)"
| "keeps idx sid (Drop conn i) = (i \<noteq> idx)"
| "keeps idx sid (Refuse conn) = True"
| "keeps idx sid (AcceptFailed err) = True"

text \<open>Slot \<open>idx\<close> holds session \<open>sid\<close>, which has been created and is open.\<close>

definition holds :: "nat \<Rightarrow> nat \<Rightarrow> state \<Rightarrow> bool" where
  "holds idx sid s \<longleftrightarrow>
     idx < length (proxySessions s) \<and> proxySessions s ! idx = Some sid \<and>
     sid \<in> open_sessions s \<and> sid < dials s"

text \<open>Every open session created as number \<open>d0\<close> or later is in the pool.\<close>

definition covered :: "nat \<Rightarrow> state \<Rightarrow> bool" where
  "covered d0 s \<longleftrightarrow> (\<forall>sid \<in> open_sessions s. d0 \<le> sid \<longrightarrow> Some sid \<in> set (proxySessions s))"

text \<open>
  A worked example: a pool of three sessions; seven connections arrive; the peer closes
  session 0 before the fourth is accepted, the reconnect then fails (the call of
  \<^verbatim>\<open>createSession\<close> number 3), and the next reconnect of that slot succeeds.
\<close>

definition pool3_env :: env where
  "pool3_env = sample_env (remote_config 3) (\<lambda>n. if n = 3 then Some ''timeout'' else None)"

definition pool3_state :: state where
  "pool3_state = snd (StartProxy pool3_env [] init_state)"

definition seven_arrivals :: "arrival list" where
  "seven_arrivals =
     [([], AcceptConn 10), ([], AcceptConn 11), ([], AcceptConn 12), ([0], AcceptConn 13),
      ([], AcceptConn 14), ([], AcceptConn 15), ([], AcceptConn 16)]"

text \<open>
  Two more worlds: one in which every call succeeds, and one with a pool of two sessions in
  which the second call of \<^verbatim>\<open>createSession\<close> fails.
\<close>

definition good_env :: env where
  "good_env = sample_env (remote_config 3) (\<lambda>n. None)"

definition good_state :: state where
  "good_state = snd (StartProxy good_env [] init_state)"

definition leak_env :: env where
  "leak_env = sample_env (remote_config 2) (\<lambda>n. if n = 1 then Some ''timeout'' else None)"

text \<open>
  What holds of the forwarder at every moment, by the position of \<^verbatim>\<open>handleClient\<close>: which
  copy goroutines exist, the value of the wait group (one for each copy goroutine that has
  not called \<^verbatim>\<open>wg.Done()\<close> yet), and the state of the two ends. The read half of the local
  connection is closed exactly when it is a TCP connection and the copy from the stream has
  got past its \<^verbatim>\<open>CloseRead\<close>.
\<close>

definition pending :: "copier_pc \<Rightarrow> int" where
  "pending c = (if c = Exited then 0 else 1)"

definition forwarder_inv :: "bool \<Rightarrow> bool \<Rightarrow> forwarder \<Rightarrow> bool" where
  "forwarder_inv open_ok is_tcp f \<longleftrightarrow>
     (case main f of
        AtOpenStream \<Rightarrow>
          s2l f = NotStarted \<and> l2s f = NotStarted \<and> wg f = 0 \<and> \<not> p1_closed f \<and>
          p2 f = NotOpened
      | AtAdd \<Rightarrow>
          open_ok \<and> s2l f = NotStarted \<and> l2s f = NotStarted \<and> wg f = 0 \<and>
          \<not> p1_closed f \<and> p2 f = StreamOpen
      | AtGo1 \<Rightarrow>
          open_ok \<and> s2l f = NotStarted \<and> l2s f = NotStarted \<and> wg f = 2 \<and>
          \<not> p1_closed f \<and> p2 f = StreamOpen
      | AtGo2 \<Rightarrow>
          open_ok \<and> s2l f \<noteq> NotStarted \<and> l2s f = NotStarted \<and>
          wg f = pending (s2l f) + 1 \<and> \<not> p1_closed f \<and> p2 f = StreamOpen
      | AtWait \<Rightarrow>
          open_ok \<and> s2l f \<noteq> NotStarted \<and> l2s f \<noteq> NotStarted \<and>
          wg f = pending (s2l f) + pending (l2s f) \<and> \<not> p1_closed f \<and>
          p2 f = (if l2s f = AtDone \<or> l2s f = Exited then StreamClosed else StreamOpen)
      | AtDeferP2 \<Rightarrow>
          open_ok \<and> s2l f = Exited \<and> l2s f = Exited \<and> wg f = 0 \<and> \<not> p1_closed f \<and>
          p2 f = StreamClosed
      | AtDeferP1 \<Rightarrow>
          open_ok \<and> s2l f = Exited \<and> l2s f = Exited \<and> wg f = 0 \<and> \<not> p1_closed f \<and>
          p2 f = StreamClosed
      | Finished \<Rightarrow>
          p1_closed f \<and> wg f = 0 \<and>
          (if open_ok then s2l f = Exited \<and> l2s f = Exited \<and> p2 f = StreamClosed
           else s2l f = NotStarted \<and> l2s f = NotStarted \<and> p2 f = NotOpened)) \<and>
     p1_read_closed f = (is_tcp \<and> (s2l f = AtDone \<or> s2l f = Exited))"

text \<open>
  Schedules for the worked examples: up to the start of both copies; a run in which the
  copy from the stream ends first; a complete run.
\<close>

definition sched_start :: "thread list" where
  "sched_start = [Main, Main, Main, Main]"

definition sched_remote_first :: "thread list" where
  "sched_remote_first = sched_start @ [StreamToLocal]"

definition sched_local_first :: "thread list" where
  "sched_local_first = sched_start @ [LocalToStream]"

definition sched_complete :: "thread list" where
  "sched_complete =
     sched_start @ [StreamToLocal, LocalToStream, LocalToStream, StreamToLocal, Main,
       StreamToLocal, LocalToStream, Main, Main, Main]"

text \<open>
  A continuation that lets \<^verbatim>\<open>handleClient\<close> get to \<^verbatim>\<open>wg.Wait()\<close>, lets both copies end, and
  lets \<^verbatim>\<open>handleClient\<close> return.
\<close>

definition sched_finish :: "thread list" where
  "sched_finish =
     [Main, Main, Main, Main, StreamToLocal, StreamToLocal, StreamToLocal,
      LocalToStream, LocalToStream, LocalToStream, Main, Main, Main]"

section \<open>Properties of the configuration\<close>

lemma Conn_applyDefaults: "1 \<le> Conn (applyDefaults c)"
  by (simp add: applyDefaults_def)

lemma Conn_applyMode: "Conn (applyMode c) = Conn c"
  by (simp add: applyMode_def setNoDelay_def)

lemma validateConfig_not_conn:
  "validateConfig (applyMode (applyDefaults c)) \<noteq> Some ''conn must be greater than 0''"
  using Conn_applyDefaults [of c] by (simp add: validateConfig_def Conn_applyMode)

text \<open>
  C9. \<^verbatim>\<open>applyMode\<close> sets (NoDelay, Interval, Resend, NoCongestion) to (0,40,2,1) for
  \<^verbatim>\<open>normal\<close>, (0,30,2,1) for \<^verbatim>\<open>fast\<close>, (1,20,2,1) for \<^verbatim>\<open>fast2\<close>, (1,10,2,1) for
  \<^verbatim>\<open>fast3\<close>, and to the values of \<^verbatim>\<open>fast\<close> for every other mode string; an empty mode has
  been replaced by \<^verbatim>\<open>fast\<close> by \<^verbatim>\<open>applyDefaults\<close> before.
\<close>

theorem applyMode_presets:
  "tuning (applyMode (c\<lparr>Mode := ''normal''\<rparr>)) = (0, 40, 2, 1) \<and>
   tuning (applyMode (c\<lparr>Mode := ''fast''\<rparr>)) = (0, 30, 2, 1) \<and>
   tuning (applyMode (c\<lparr>Mode := ''fast2''\<rparr>)) = (1, 20, 2, 1) \<and>
   tuning (applyMode (c\<lparr>Mode := ''fast3''\<rparr>)) = (1, 10, 2, 1) \<and>
   (m \<notin> {''normal'', ''fast'', ''fast2'', ''fast3''} \<longrightarrow>
      tuning (applyMode (c\<lparr>Mode := m\<rparr>)) = (0, 30, 2, 1)) \<and>
   Mode (applyDefaults (c\<lparr>Mode := []\<rparr>)) = ''fast'' \<and>
   tuning (applyMode (applyDefaults (c\<lparr>Mode := []\<rparr>))) = (0, 30, 2, 1)"
  by (simp add: applyMode_def setNoDelay_def tuning_def applyDefaults_def)

theorem applyMode_presets_witness:
  "''turbo'' \<notin> {''normal'', ''fast'', ''fast2'', ''fast3''} \<and>
   tuning (applyMode (zeroConfig\<lparr>Mode := ''turbo''\<rparr>)) = (0, 30, 2, 1)"
  using applyMode_presets [of zeroConfig "''turbo''"] by simp

section \<open>Properties of the sessions and of the pool\<close>

lemma createSession_frame:
  assumes "createSession e c s = (r, s')"
  shows "proxyListener s' = proxyListener s" "proxySessions s' = proxySessions s"
    "proxyRunning s' = proxyRunning s" "proxyConfig s' = proxyConfig s"
    "stopChan s' = stopChan s" "listens s' = listens s"
    "open_listeners s' = open_listeners s" "acceptLoops s' = acceptLoops s"
    "dials s' = Suc (dials s)"
  using assms
  by (auto simp: createSession_def Let_def closeSession_def split: option.splits)

lemma createSession_Inr:
  assumes "createSession e c s = (Inr n, s')"
  shows "n = dials s" "open_sessions s' = insert (dials s) (open_sessions s)"
  using assms
  by (auto simp: createSession_def Let_def closeSession_def split: option.splits)

lemma createSession_Inl:
  assumes "createSession e c s = (Inl err, s')"
  shows "open_sessions s' \<subseteq> open_sessions s" "open_sessions s - {dials s} \<subseteq> open_sessions s'"
  using assms
  by (auto simp: createSession_def Let_def closeSession_def split: option.splits)

lemma populate_length:
  "length (proxySessions (snd (populate e c l i s))) = length (proxySessions s)"
proof (induction e c l i s rule: populate.induct)
  case (1 e config l i s)
  show ?case
  proof (cases "int i < Conn config")
    case False
    then show ?thesis by (simp add: populate.simps)
  next
    case True
    obtain r s' where cs: "createSession e config s = (r, s')" by force
    show ?thesis
    proof (cases r)
      case (Inl err)
      with True cs show ?thesis
        using createSession_frame(2) [OF cs]
        by (simp add: populate.simps [of e config l i s] closeListener_def)
    next
      case (Inr n)
      with True cs "1.IH" [OF True cs [symmetric, unfolded Inr] refl] show ?thesis
        using createSession_frame(2) [OF cs]
        by (simp add: populate.simps [of e config l i s])
    qed
  qed
qed

lemma populate_result:
  assumes "populate e c l i s = (r, s')" and "i \<le> nat (Conn c)"
    and "nat (Conn c) \<le> length (proxySessions s)"
  shows "proxyListener s' = proxyListener s \<and> proxyRunning s' = proxyRunning s \<and>
    proxyConfig s' = proxyConfig s \<and> stopChan s' = stopChan s \<and> listens s' = listens s \<and>
    acceptLoops s' = acceptLoops s \<and> length (proxySessions s') = length (proxySessions s) \<and>
    dials s \<le> dials s' \<and> open_sessions s' \<subseteq> open_sessions s \<union> {dials s..<dials s'} \<and>
    (case r of
       None \<Rightarrow>
         dials s' = dials s + (nat (Conn c) - i) \<and>
         open_sessions s' = open_sessions s \<union> {dials s..<dials s'} \<and>
         open_listeners s' = open_listeners s \<and>
         proxySessions s' =
           take i (proxySessions s) @ map Some [dials s..<dials s'] @
           drop (nat (Conn c)) (proxySessions s)
     | Some err \<Rightarrow> open_listeners s' = open_listeners s - {l})"
  using assms
proof (induction e c l i s arbitrary: r s' rule: populate.induct)
  case (1 e config l i s)
  show ?case
  proof (cases "int i < Conn config")
    case False
    with "1.prems"(1) have "r = None" "s' = s"
      by (simp_all add: populate.simps [of e config l i s])
    moreover from False "1.prems"(2) have "i = nat (Conn config)" by linarith
    ultimately show ?thesis by simp
  next
    case True
    obtain q s1 where cs: "createSession e config s = (q, s1)" by (rule prod.exhaust)
    note fr = createSession_frame [OF cs]
    show ?thesis
    proof (cases q)
      case (Inl err)
      with True cs "1.prems"(1) have "r = Some err" "s' = closeListener l s1"
        by (simp_all add: populate.simps [of e config l i s])
      moreover have "open_sessions s1 \<subseteq> open_sessions s \<union> {dials s..<dials s1}"
        using createSession_Inl(1) [OF cs [unfolded Inl]] by blast
      ultimately show ?thesis
        by (simp add: closeListener_def fr)
    next
      case (Inr n)
      let ?s2 = "s1\<lparr>proxySessions := (proxySessions s1)[i := Some n]\<rparr>"
      from True cs Inr "1.prems"(1) have pop: "populate e config l (Suc i) ?s2 = (r, s')"
        by (simp add: populate.simps [of e config l i s])
      have i2: "Suc i \<le> nat (Conn config)" using True by linarith
      have len2: "nat (Conn config) \<le> length (proxySessions ?s2)"
        using "1.prems"(3) fr by simp
      note IH = "1.IH" [OF True cs [symmetric, unfolded Inr] refl pop i2 len2]
      note new = createSession_Inr [OF cs [unfolded Inr]]
      have d2: "dials ?s2 = Suc (dials s)" using fr by simp
      have o2: "open_sessions ?s2 = insert (dials s) (open_sessions s)" using new by simp
      have il: "i < length (proxySessions s)" using i2 "1.prems"(3) by linarith
      from IH d2 have dd: "dials s < dials s'" by simp
      have frame: "proxyListener s' = proxyListener s \<and> proxyRunning s' = proxyRunning s \<and>
        proxyConfig s' = proxyConfig s \<and> stopChan s' = stopChan s \<and> listens s' = listens s \<and>
        acceptLoops s' = acceptLoops s \<and> length (proxySessions s') = length (proxySessions s)"
        using IH fr by simp
      have sub: "open_sessions s' \<subseteq> open_sessions s \<union> {dials s..<dials s'}"
      proof -
        from IH have "open_sessions s' \<subseteq> open_sessions ?s2 \<union> {dials ?s2..<dials s'}" by blast
        with o2 d2 dd show ?thesis by auto
      qed
      have res: "case r of
           None \<Rightarrow>
             dials s' = dials s + (nat (Conn config) - i) \<and>
             open_sessions s' = open_sessions s \<union> {dials s..<dials s'} \<and>
             open_listeners s' = open_listeners s \<and>
             proxySessions s' =
               take i (proxySessions s) @ map Some [dials s..<dials s'] @
               drop (nat (Conn config)) (proxySessions s)
         | Some err \<Rightarrow> open_listeners s' = open_listeners s - {l}"
      proof (cases r)
        case (Some err)
        with IH fr show ?thesis by simp
      next
        case None
        with IH have a: "dials s' = dials ?s2 + (nat (Conn config) - Suc i)"
          and b: "open_sessions s' = open_sessions ?s2 \<union> {dials ?s2..<dials s'}"
          and c: "open_listeners s' = open_listeners ?s2"
          and d: "proxySessions s' =
               take (Suc i) (proxySessions ?s2) @ map Some [dials ?s2..<dials s'] @
               drop (nat (Conn config)) (proxySessions ?s2)"
          by simp_all
        have a': "dials s' = dials s + (nat (Conn config) - i)"
          using a d2 i2 by simp
        have iv: "{dials s..<dials s'} = insert (dials s) {Suc (dials s)..<dials s'}"
          using dd by auto
        have "open_sessions s' = insert (dials s) (open_sessions s) \<union> {Suc (dials s)..<dials s'}"
          using b o2 d2 by simp
        then have b': "open_sessions s' = open_sessions s \<union> {dials s..<dials s'}"
          using iv by simp
        have c': "open_listeners s' = open_listeners s" using c fr by simp
        have t: "take (Suc i) (proxySessions ?s2) = take i (proxySessions s) @ [Some (dials s)]"
          using il fr new by (simp add: take_Suc_conv_app_nth)
        have dr: "drop (nat (Conn config)) (proxySessions ?s2) =
            drop (nat (Conn config)) (proxySessions s)"
          using i2 fr by simp
        have u: "[dials s..<dials s'] = dials s # [Suc (dials s)..<dials s']"
          using dd by (simp add: upt_conv_Cons)
        have d': "proxySessions s' =
               take i (proxySessions s) @ map Some [dials s..<dials s'] @
               drop (nat (Conn config)) (proxySessions s)"
          using d t dr u d2 by simp
        from None a' b' c' d' show ?thesis by simp
      qed
      from frame dd sub res show ?thesis by simp
    qed
  qed
qed

section \<open>Properties of the controller\<close>

lemma StartProxy_cases [consumes 1, case_names running config validate listen session success]:
  assumes "StartProxy e j s = (res, s')"
  obtains
    "proxyRunning s" "res = ''Proxy already running''" "s' = s"
  | err where "\<not> proxyRunning s" "res = ''Config Error: '' @ err" "s' = s"
  | err where "\<not> proxyRunning s" "res = ''Validate Error: '' @ err" "s' = s"
  | err where "\<not> proxyRunning s" "res = ''Listen Error: '' @ err"
      "s' = s\<lparr>listens := Suc (listens s), proxyListener := None\<rparr>"
  | config err where "\<not> proxyRunning s" "res = ''Session Error: '' @ err" "1 \<le> Conn config"
      "populate e config (listens s) 0
         (s\<lparr>listens := Suc (listens s), proxyListener := Some (listens s),
            open_listeners := insert (listens s) (open_listeners s),
            proxySessions := replicate (nat (Conn config)) None\<rparr>) = (Some err, s')"
  | config s3 where "\<not> proxyRunning s" "res = []" "1 \<le> Conn config"
      "populate e config (listens s) 0
         (s\<lparr>listens := Suc (listens s), proxyListener := Some (listens s),
            open_listeners := insert (listens s) (open_listeners s),
            proxySessions := replicate (nat (Conn config)) None\<rparr>) = (None, s3)"
      "s' = s3\<lparr>proxyConfig := Some config, proxyRunning := True, stopChan := ChanOpen,
              acceptLoops := Suc (acceptLoops s3)\<rparr>"
proof (cases "proxyRunning s")
  case True
  with assms have "res = ''Proxy already running''" "s' = s"
    by (simp_all add: StartProxy_def)
  with True that(1) show ?thesis by blast
next
  case run: False
  show ?thesis
  proof (cases "json_Unmarshal e j")
    case (Inl err)
    with assms run have "res = ''Config Error: '' @ err" "s' = s"
      by (simp_all add: StartProxy_def)
    with run that(2) show ?thesis by blast
  next
    case (Inr config0)
    define config where "config = applyMode (applyDefaults config0)"
    have conn: "1 \<le> Conn config"
      by (simp add: config_def Conn_applyMode Conn_applyDefaults)
    show ?thesis
    proof (cases "validateConfig config")
      case (Some err)
      with assms run Inr have "res = ''Validate Error: '' @ err" "s' = s"
        by (simp_all add: StartProxy_def config_def)
      with run that(3) show ?thesis by blast
    next
      case None
      show ?thesis
      proof (cases "net_Listen e (listens s) (LocalAddr config)")
        case (Some err)
        with assms run Inr None have "res = ''Listen Error: '' @ err"
          "s' = s\<lparr>listens := Suc (listens s), proxyListener := None\<rparr>"
          by (simp_all add: StartProxy_def config_def Let_def)
        with run that(4) show ?thesis by blast
      next
        case listen: None
        define s2 where "s2 = s\<lparr>listens := Suc (listens s), proxyListener := Some (listens s),
            open_listeners := insert (listens s) (open_listeners s),
            proxySessions := replicate (nat (Conn config)) None\<rparr>"
        obtain r s3 where pop: "populate e config (listens s) 0 s2 = (r, s3)"
          by (rule prod.exhaust)
        show ?thesis
        proof (cases r)
          case (Some err)
          with assms run Inr None listen pop have "res = ''Session Error: '' @ err" "s' = s3"
            by (simp_all add: StartProxy_def config_def [symmetric] Let_def s2_def [symmetric])
          with that(5) [of err config] run conn pop Some show ?thesis
            unfolding s2_def by blast
        next
          case p: None
          with assms run Inr None listen pop have "res = []"
            "s' = s3\<lparr>proxyConfig := Some config, proxyRunning := True, stopChan := ChanOpen,
              acceptLoops := Suc (acceptLoops s3)\<rparr>"
            by (simp_all add: StartProxy_def config_def [symmetric] Let_def s2_def [symmetric])
          with that(6) [of config s3] run conn pop p show ?thesis
            unfolding s2_def by blast
        qed
      qed
    qed
  qed
qed

text \<open>
  C10. Whatever the configuration string, \<^verbatim>\<open>StartProxy\<close> never returns the validation error
  about \<^verbatim>\<open>conn\<close>: \<^verbatim>\<open>applyDefaults\<close> runs before \<^verbatim>\<open>validateConfig\<close> and leaves \<^verbatim>\<open>Conn\<close> at 1 or
  more, so that branch of \<^verbatim>\<open>validateConfig\<close> is never taken, and whenever \<^verbatim>\<open>StartProxy\<close> gets
  as far as creating sessions (it succeeds or returns a session error) the pool has at least
  one slot.
\<close>

theorem StartProxy_conn_error_unreachable:
  "fst (StartProxy e configJson s) \<noteq> ''Validate Error: conn must be greater than 0'' \<and>
   validateConfig (applyMode (applyDefaults c)) \<noteq> Some ''conn must be greater than 0'' \<and>
   1 \<le> Conn (applyMode (applyDefaults c)) \<and>
   (\<not> proxyRunning s \<and>
    (fst (StartProxy e configJson s) = [] \<or>
     is_prefix ''Session Error: '' (fst (StartProxy e configJson s))) \<longrightarrow>
      1 \<le> length (proxySessions (snd (StartProxy e configJson s))))"
proof -
  have a: "fst (StartProxy e configJson s) \<noteq> ''Validate Error: conn must be greater than 0''"
    using validateConfig_not_conn
    by (auto simp: StartProxy_def Let_def split: sum.splits option.splits prod.splits)
  have b: "1 \<le> Conn (applyMode (applyDefaults c))"
    by (simp add: Conn_applyMode Conn_applyDefaults)
  have c: "1 \<le> length (proxySessions (snd (StartProxy e configJson s)))"
    if run: "\<not> proxyRunning s"
      and res: "fst (StartProxy e configJson s) = [] \<or>
        is_prefix ''Session Error: '' (fst (StartProxy e configJson s))"
  proof (cases "json_Unmarshal e configJson")
    case (Inl err)
    with run res show ?thesis by (simp add: StartProxy_def)
  next
    case (Inr config0)
    define config where "config = applyMode (applyDefaults config0)"
    have conn: "1 \<le> Conn config"
      by (simp add: config_def Conn_applyMode Conn_applyDefaults)
    show ?thesis
    proof (cases "validateConfig config")
      case (Some err)
      with run res Inr show ?thesis by (simp add: StartProxy_def config_def)
    next
      case None
      show ?thesis
      proof (cases "net_Listen e (listens s) (LocalAddr config)")
        case (Some err)
        with run res Inr None show ?thesis by (simp add: StartProxy_def config_def Let_def)
      next
        case listen: None
        define s2 where "s2 = s\<lparr>listens := Suc (listens s), proxyListener := Some (listens s),
          open_listeners := insert (listens s) (open_listeners s),
          proxySessions := replicate (nat (Conn config)) None\<rparr>"
        have len: "length (proxySessions (snd (populate e config (listens s) 0 s2))) = nat (Conn config)"
          by (simp add: populate_length s2_def)
        obtain r s3 where pop: "populate e config (listens s) 0 s2 = (r, s3)" by force
        from len pop have "length (proxySessions s3) = nat (Conn config)" by simp
        with conn have "1 \<le> length (proxySessions s3)" by simp
        with run Inr None listen pop show ?thesis
          by (cases r) (simp_all add: StartProxy_def config_def [symmetric] Let_def s2_def [symmetric])
      qed
    qed
  qed
  from a b c validateConfig_not_conn show ?thesis by blast
qed

theorem StartProxy_conn_error_unreachable_witness:
  "(\<not> proxyRunning init_state \<and>
    fst (StartProxy (sample_env (remote_config (- 5)) (\<lambda>n. None)) [] init_state) = []) \<and>
   1 \<le> length (proxySessions
          (snd (StartProxy (sample_env (remote_config (- 5)) (\<lambda>n. None)) [] init_state)))"
proof -
  have h: "\<not> proxyRunning init_state \<and>
    fst (StartProxy (sample_env (remote_config (- 5)) (\<lambda>n. None)) [] init_state) = []"
    by code_simp
  with StartProxy_conn_error_unreachable
    [of "sample_env (remote_config (- 5)) (\<lambda>n. None)" "[]" init_state zeroConfig]
  show ?thesis by blast
qed

text \<open>
  C8. For the document \<^verbatim>\<open>{"remoteaddr":"","localaddr":"127.0.0.1:0"}\<close>, which the decoder
  turns into a configuration with an empty remote address, \<^verbatim>\<open>StartProxy\<close> on a stopped proxy
  returns a non-empty error that contains \<^verbatim>\<open>remoteaddr\<close>; the proxy is still not running and
  the state is what it was: no listener and no session has been opened.
\<close>

theorem StartProxy_empty_remoteaddr:
  assumes "json_Unmarshal e scenario_json = Inr (zeroConfig\<lparr>LocalAddr := ''127.0.0.1:0''\<rparr>)"
    and "\<not> IsRunning s"
  shows "StartProxy e scenario_json s = (''Validate Error: remoteaddr is required'', s) \<and>
    fst (StartProxy e scenario_json s) \<noteq> [] \<and>
    contains (fst (StartProxy e scenario_json s)) ''remoteaddr'' \<and>
    \<not> IsRunning (snd (StartProxy e scenario_json s)) \<and>
    snd (StartProxy e scenario_json s) = s"
proof -
  have "StartProxy e scenario_json s = (''Validate Error: remoteaddr is required'', s)"
    using assms
    by (simp add: StartProxy_def IsRunning_def validateConfig_def applyMode_def
        applyDefaults_def setNoDelay_def zeroConfig_def)
  moreover have "contains ''Validate Error: remoteaddr is required'' ''remoteaddr''"
    by simp
  ultimately show ?thesis using assms(2) by simp
qed

theorem StartProxy_empty_remoteaddr_witness:
  "json_Unmarshal scenario_env scenario_json = Inr (zeroConfig\<lparr>LocalAddr := ''127.0.0.1:0''\<rparr>) \<and>
   \<not> IsRunning init_state \<and>
   StartProxy scenario_env scenario_json init_state =
     (''Validate Error: remoteaddr is required'', init_state)"
proof -
  have h1: "json_Unmarshal scenario_env scenario_json =
      Inr (zeroConfig\<lparr>LocalAddr := ''127.0.0.1:0''\<rparr>)"
    by (simp add: scenario_env_def)
  have h2: "\<not> IsRunning init_state"
    by (simp add: IsRunning_def init_state_def)
  from StartProxy_empty_remoteaddr [OF h1 h2] h1 h2 show ?thesis by blast
qed

section \<open>Properties of the accept loop\<close>

text \<open>The counter: below \<open>2 ^ 63\<close> it has not wrapped, and \<^verbatim>\<open>%\<close> is the remainder on naturals.\<close>

lemma sint_of_nat_64: "k < 2 ^ 63 \<Longrightarrow> sint (of_nat k :: 64 word) = int k"
proof -
  assume k: "k < 2 ^ 63"
  have "sint (of_nat k :: 64 word) = signed_take_bit 63 (int k)"
    using sint_sbintrunc' [of "int k", where 'a = 64] by simp
  also have "\<dots> = int k"
    using k by (intro signed_take_bit_int_eq_self) auto
  finally show ?thesis .
qed

lemma smod_nat: "0 < n \<Longrightarrow> int k smod int n = int (k mod n)"
  by (simp add: smod_mod_positive zmod_int)

subsection \<open>A running proxy keeps dispatching\<close>

lemma closeSession_frame [simp]:
  "proxyListener (closeSession sid s) = proxyListener s"
  "proxySessions (closeSession sid s) = proxySessions s"
  "proxyRunning (closeSession sid s) = proxyRunning s"
  "proxyConfig (closeSession sid s) = proxyConfig s"
  "stopChan (closeSession sid s) = stopChan s"
  "listens (closeSession sid s) = listens s"
  "open_listeners (closeSession sid s) = open_listeners s"
  "dials (closeSession sid s) = dials s"
  "acceptLoops (closeSession sid s) = acceptLoops s"
  "open_sessions (closeSession sid s) = open_sessions s - {sid}"
  by (simp_all add: closeSession_def)

lemma peerCloses_frame [simp]:
  "proxyListener (peerCloses sids s) = proxyListener s"
  "proxySessions (peerCloses sids s) = proxySessions s"
  "proxyRunning (peerCloses sids s) = proxyRunning s"
  "proxyConfig (peerCloses sids s) = proxyConfig s"
  "stopChan (peerCloses sids s) = stopChan s"
  "listens (peerCloses sids s) = listens s"
  "open_listeners (peerCloses sids s) = open_listeners s"
  "dials (peerCloses sids s) = dials s"
  "acceptLoops (peerCloses sids s) = acceptLoops s"
  "open_sessions (peerCloses sids s) = open_sessions s - set sids"
  unfolding peerCloses_def
  by (induction sids arbitrary: s; simp; blast)+

lemma running_ok_peerCloses [simp]: "running_ok (peerCloses sids s) = running_ok s"
  by (simp add: running_ok_def)

lemma running_ok_createSession:
  "createSession e c s = (r, s') \<Longrightarrow> running_ok s' = running_ok s"
  by (simp add: running_ok_def createSession_frame)

lemma reconnect_running:
  assumes "running_ok s"
  shows "\<exists>a s'. reconnect e conn idx rr' s = Next a rr' s' \<and> running_ok s' \<and>
     length (proxySessions s') = length (proxySessions s) \<and> assigned a = Some (conn, idx)"
proof -
  from assms obtain config where c: "proxyConfig s = Some config"
    by (auto simp: running_ok_def)
  obtain r s1 where cs: "createSession e config s = (r, s1)" by force
  note fr = createSession_frame [OF cs]
  show ?thesis
  proof (cases r)
    case (Inl err)
    with c cs assms fr show ?thesis
      by (simp add: reconnect_def running_ok_def)
  next
    case (Inr n)
    with c cs assms fr show ?thesis
      by (simp add: reconnect_def running_ok_def)
  qed
qed

lemma dispatch_running:
  assumes ok: "running_ok s" and rr: "sint rr = int k"
  shows "\<exists>a s'. dispatch e conn rr s = Next a (rr + 1) s' \<and> running_ok s' \<and>
     length (proxySessions s') = length (proxySessions s) \<and>
     assigned a = Some (conn, k mod length (proxySessions s))"
proof -
  let ?N = "length (proxySessions s)"
  from ok have N: "0 < ?N" and run: "proxyRunning s" "proxySessions s \<noteq> []"
    by (auto simp: running_ok_def)
  have idx: "sint rr smod int ?N = int (k mod ?N)"
    using N rr by (simp add: smod_nat)
  show ?thesis
  proof (cases "proxySessions s ! (k mod ?N)")
    case None
    with run idx reconnect_running [OF ok, of e conn "k mod ?N" "rr + 1"] show ?thesis
      by (simp add: dispatch_def Let_def)
  next
    case (Some session)
    show ?thesis
    proof (cases "IsClosed session s")
      case True
      with Some run idx reconnect_running [OF ok, of e conn "k mod ?N" "rr + 1"] show ?thesis
        by (simp add: dispatch_def Let_def)
    next
      case False
      with Some run idx ok show ?thesis
        by (simp add: dispatch_def Let_def)
    qed
  qed
qed

lemma iteration_running:
  assumes ok: "running_ok s" and rr: "sint rr = int k"
  shows "\<exists>a rr' s'. iteration e inp rr s = Next a rr' s' \<and> running_ok s' \<and>
     length (proxySessions s') = length (proxySessions s) \<and>
     (case snd inp of
        AcceptConn conn \<Rightarrow> assigned a = Some (conn, k mod length (proxySessions s)) \<and> rr' = rr + 1
      | AcceptError err \<Rightarrow> assigned a = None \<and> rr' = rr)"
proof -
  from ok have ch: "stopChan s = ChanOpen" by (simp add: running_ok_def)
  have ok1: "running_ok (peerCloses (fst inp) s)" using ok by simp
  show ?thesis
  proof (cases "snd inp")
    case (AcceptConn conn)
    with ch dispatch_running [OF ok1 rr, of e conn] show ?thesis
      by (auto simp: iteration_def Let_def)
  next
    case (AcceptError err)
    with ch ok1 show ?thesis
      by (simp add: iteration_def Let_def)
  qed
qed

lemma acceptLoop_from_round_robin:
  assumes "running_ok s" and "k + length (accepted inps) \<le> 2 ^ 63"
    and "acceptLoop_from e inps (of_nat k) s = (as, en, rr', s')"
  shows "en = Blocked \<and> rr' = of_nat (k + length (accepted inps)) \<and>
     assignments as = round_robin (length (proxySessions s)) k (accepted inps) \<and>
     running_ok s' \<and> length (proxySessions s') = length (proxySessions s)"
  using assms
proof (induction inps arbitrary: k s as)
  case Nil
  then show ?case by simp
next
  case (Cons inp inps)
  show ?case
  proof (cases "snd inp")
    case (AcceptError err)
    then obtain cl where inp: "inp = (cl, AcceptError err)" by (cases inp) simp
    from Cons.prems(2) inp have k: "k + length (accepted inps) \<le> 2 ^ 63" by simp
    from Cons.prems(1) have ch: "stopChan s = ChanOpen" by (simp add: running_ok_def)
    have it: "iteration e inp (of_nat k) s = Next (AcceptFailed err) (of_nat k) (peerCloses cl s)"
      using ch inp by (simp add: iteration_def Let_def)
    obtain as1 r1 where rest: "acceptLoop_from e inps (of_nat k) (peerCloses cl s) = (as1, r1)"
      by (rule prod.exhaust)
    with it Cons.prems(3) have as: "as = AcceptFailed err # as1" and r1: "r1 = (en, rr', s')"
      by auto
    have ok1: "running_ok (peerCloses cl s)" using Cons.prems(1) by simp
    from Cons.IH [OF ok1 k rest [unfolded r1]] as inp show ?thesis by simp
  next
    case (AcceptConn conn)
    then obtain cl where inp: "inp = (cl, AcceptConn conn)" by (cases inp) simp
    from Cons.prems(2) inp have k: "Suc k + length (accepted inps) \<le> 2 ^ 63" by simp
    then have "k < 2 ^ 63" by simp
    then have rr: "sint (of_nat k :: 64 word) = int k" by (rule sint_of_nat_64)
    from iteration_running [OF Cons.prems(1) rr, of e inp] AcceptConn
    obtain a s1 where it: "iteration e inp (of_nat k) s = Next a (of_nat k + 1) s1"
      and ok1: "running_ok s1" and len: "length (proxySessions s1) = length (proxySessions s)"
      and a: "assigned a = Some (conn, k mod length (proxySessions s))"
      by auto
    have suc: "(of_nat k + 1 :: 64 word) = of_nat (Suc k)" by simp
    obtain as1 r1 where rest: "acceptLoop_from e inps (of_nat (Suc k)) s1 = (as1, r1)"
      by (rule prod.exhaust)
    with it suc Cons.prems(3) have as: "as = a # as1" and r1: "r1 = (en, rr', s')"
      by auto
    from Cons.IH [OF ok1 k rest [unfolded r1]] as inp a len show ?thesis by simp
  qed
qed

subsection \<open>The cases of a dispatch\<close>

text \<open>
  One rule for the seven ways through the critical section: the proxy is stopped; the pool
  is empty; the index is negative; the session of the slot is open; there is no
  configuration; the reconnect fails; the reconnect succeeds.
\<close>

lemma dispatch_cases [case_names stopped empty negative live noconfig failed replaced]:
  obtains
    "\<not> proxyRunning s" "dispatch e conn rr s = Return [Refuse conn] s"
  | "proxyRunning s" "proxySessions s = []"
      "dispatch e conn rr s = Panic ''integer divide by zero'' s"
  | "proxyRunning s" "proxySessions s \<noteq> []" "sint rr smod int (length (proxySessions s)) < 0"
      "dispatch e conn rr s = Panic ''index out of range'' s"
  | idx session where "proxyRunning s" "idx < length (proxySessions s)"
      "int idx = sint rr smod int (length (proxySessions s))"
      "proxySessions s ! idx = Some session" "session \<in> open_sessions s"
      "dispatch e conn rr s = Next (Forward conn idx session) (rr + 1) s"
  | idx where "proxyRunning s" "idx < length (proxySessions s)"
      "int idx = sint rr smod int (length (proxySessions s))"
      "slot_dead s idx" "proxyConfig s = None"
      "dispatch e conn rr s = Panic ''nil pointer dereference'' s"
  | idx config err s' where "proxyRunning s" "idx < length (proxySessions s)"
      "int idx = sint rr smod int (length (proxySessions s))"
      "slot_dead s idx" "proxyConfig s = Some config"
      "createSession e config s = (Inl err, s')"
      "dispatch e conn rr s = Next (Drop conn idx) (rr + 1) s'"
  | idx config s' where "proxyRunning s" "idx < length (proxySessions s)"
      "int idx = sint rr smod int (length (proxySessions s))"
      "slot_dead s idx" "proxyConfig s = Some config"
      "createSession e config s = (Inr (dials s), s')"
      "dispatch e conn rr s =
         Next (Forward conn idx (dials s)) (rr + 1)
           (s'\<lparr>proxySessions := (proxySessions s)[idx := Some (dials s)]\<rparr>)"
proof (cases "proxyRunning s")
  case False
  then have "dispatch e conn rr s = Return [Refuse conn] s" by (simp add: dispatch_def)
  with False that(1) show ?thesis by blast
next
  case run: True
  show ?thesis
  proof (cases "proxySessions s = []")
    case True
    with run have "dispatch e conn rr s = Panic ''integer divide by zero'' s"
      by (simp add: dispatch_def)
    with run True that(2) show ?thesis by blast
  next
    case ne: False
    let ?i = "sint rr smod int (length (proxySessions s))"
    show ?thesis
    proof (cases "?i < 0")
      case True
      with run ne have "dispatch e conn rr s = Panic ''index out of range'' s"
        by (simp add: dispatch_def Let_def)
      with run ne True that(3) show ?thesis by blast
    next
      case nonneg: False
      define idx where "idx = nat ?i"
      have ii: "int idx = ?i" using nonneg by (simp add: idx_def)
      have "?i \<in> {- \<bar>int (length (proxySessions s))\<bar> + 1..\<bar>int (length (proxySessions s))\<bar> - 1}"
        using ne by (intro smod_int_range) simp
      then have lt: "idx < length (proxySessions s)" using ii by simp
      have d: "dispatch e conn rr s =
          (case proxySessions s ! idx of
             None \<Rightarrow> reconnect e conn idx (rr + 1) s
           | Some session \<Rightarrow>
               if IsClosed session s then reconnect e conn idx (rr + 1) s
               else Next (Forward conn idx session) (rr + 1) s)"
        using run ne nonneg unfolding idx_def by (simp add: dispatch_def Let_def)
      show ?thesis
      proof (cases "slot_dead s idx")
        case False
        then obtain session where ses: "proxySessions s ! idx = Some session"
          and op: "session \<in> open_sessions s"
          by (auto simp: slot_dead_def IsClosed_def split: option.splits)
        with d have "dispatch e conn rr s = Next (Forward conn idx session) (rr + 1) s"
          by (simp add: IsClosed_def)
        with run lt ii ses op that(4) show ?thesis by blast
      next
        case dead: True
        then have d': "dispatch e conn rr s = reconnect e conn idx (rr + 1) s"
          using d by (auto simp: slot_dead_def split: option.splits)
        show ?thesis
        proof (cases "proxyConfig s")
          case None
          with d' have "dispatch e conn rr s = Panic ''nil pointer dereference'' s"
            by (simp add: reconnect_def)
          with run lt ii dead None that(5) show ?thesis by blast
        next
          case (Some config)
          obtain r s' where cs: "createSession e config s = (r, s')" by (rule prod.exhaust)
          show ?thesis
          proof (cases r)
            case (Inl err)
            with d' Some cs have "dispatch e conn rr s = Next (Drop conn idx) (rr + 1) s'"
              by (simp add: reconnect_def)
            with run lt ii dead Some cs Inl that(6) show ?thesis by blast
          next
            case (Inr n)
            with createSession_Inr(1) [of e config s n s'] cs have n: "n = dials s" by simp
            from createSession_frame(2) [OF cs] d' Some cs Inr n
            have "dispatch e conn rr s =
               Next (Forward conn idx (dials s)) (rr + 1)
                 (s'\<lparr>proxySessions := (proxySessions s)[idx := Some (dials s)]\<rparr>)"
              by (simp add: reconnect_def)
            with run lt ii dead Some cs Inr n that(7) show ?thesis by blast
          qed
        qed
      qed
    qed
  qed
qed

subsection \<open>What the loop leaves unchanged\<close>

lemma loop_frame_refl: "loop_frame s s"
  by (simp add: loop_frame_def)

lemma loop_frame_trans:
  assumes a: "loop_frame s s1" and b: "loop_frame s1 s2"
  shows "loop_frame s s2"
proof -
  have d: "dials s \<le> dials s1" "dials s1 \<le> dials s2"
    using a b by (simp_all add: loop_frame_def)
  have "open_sessions s2 \<subseteq> open_sessions s \<union> {dials s..<dials s2}"
  proof
    fix x
    assume "x \<in> open_sessions s2"
    with b have "x \<in> open_sessions s1 \<or> (dials s1 \<le> x \<and> x < dials s2)"
      by (auto simp: loop_frame_def)
    moreover have "x \<in> open_sessions s \<or> (dials s \<le> x \<and> x < dials s1)"
      if "x \<in> open_sessions s1"
      using a that by (auto simp: loop_frame_def)
    ultimately show "x \<in> open_sessions s \<union> {dials s..<dials s2}"
      using d by auto
  qed
  with a b d show ?thesis by (simp add: loop_frame_def)
qed

lemma loop_frame_peerCloses: "loop_frame s (peerCloses sids s)"
  by (auto simp: loop_frame_def)

lemma loop_frame_createSession:
  assumes "createSession e c s = (r, s')"
  shows "loop_frame s s'"
proof -
  note fr = createSession_frame [OF assms]
  have "open_sessions s' \<subseteq> insert (dials s) (open_sessions s)"
  proof (cases r)
    case (Inl err)
    with createSession_Inl(1) [of e c s err s'] assms show ?thesis by auto
  next
    case (Inr n)
    with createSession_Inr [of e c s n s'] assms show ?thesis by auto
  qed
  then have "open_sessions s' \<subseteq> open_sessions s \<union> {dials s..<dials s'}"
    using fr(9) by auto
  with fr show ?thesis by (simp add: loop_frame_def)
qed

lemma loop_frame_dispatch: "loop_frame s (state_of (dispatch e conn rr s))"
proof (cases rule: dispatch_cases [where s = s and e = e and conn = conn and rr = rr])
  case (failed idx config err s')
  with loop_frame_createSession [OF failed(6)] show ?thesis by simp
next
  case (replaced idx config s')
  with loop_frame_createSession [OF replaced(6)] show ?thesis
    by (simp add: loop_frame_def)
qed (simp_all add: loop_frame_refl)

lemma loop_frame_iteration: "loop_frame s (state_of (iteration e inp rr s))"
proof (cases "stopChan s = ChanClosed")
  case True
  then show ?thesis by (simp add: iteration_def loop_frame_refl)
next
  case False
  show ?thesis
  proof (cases "snd inp")
    case (AcceptConn conn)
    with False loop_frame_trans [OF loop_frame_peerCloses [of s "fst inp"]
      loop_frame_dispatch [of _ e conn rr]]
    show ?thesis by (simp add: iteration_def Let_def)
  next
    case (AcceptError err)
    with False loop_frame_peerCloses [of s "fst inp"] show ?thesis
      by (simp add: iteration_def Let_def)
  qed
qed

lemma loop_frame_acceptLoop_from:
  "acceptLoop_from e inps rr s = (as, en, rr', s') \<Longrightarrow> loop_frame s s'"
proof (induction inps arbitrary: rr s as)
  case Nil
  then show ?case by (simp add: loop_frame_refl)
next
  case (Cons inp inps)
  note it = loop_frame_iteration [of s e inp rr]
  show ?case
  proof (cases "iteration e inp rr s")
    case (Next a rr1 s1)
    obtain as1 r1 where rest: "acceptLoop_from e inps rr1 s1 = (as1, r1)"
      by (rule prod.exhaust)
    with Next Cons.prems have r1: "r1 = (en, rr', s')" by auto
    from it Next have "loop_frame s s1" by simp
    with Cons.IH [OF rest [unfolded r1]] show ?thesis by (rule loop_frame_trans [rotated])
  next
    case (Return as1 s1)
    with it Cons.prems show ?thesis by auto
  next
    case (Panic msg s1)
    with it Cons.prems show ?thesis by auto
  qed
qed

lemma consistent_loop_frame:
  assumes c: "consistent s" and f: "loop_frame s s'"
  shows "consistent s'"
proof -
  have r: "proxyRunning s' \<longrightarrow> running_ok s'"
    using c f by (auto simp: consistent_def loop_frame_def running_ok_def)
  have o: "\<forall>sid \<in> open_sessions s'. sid < dials s'"
  proof
    fix sid
    assume "sid \<in> open_sessions s'"
    with f have "sid \<in> open_sessions s \<or> sid < dials s'"
      by (auto simp: loop_frame_def)
    moreover have "sid < dials s" if "sid \<in> open_sessions s"
      using c that by (simp add: consistent_def)
    moreover have "dials s \<le> dials s'"
      using f by (simp add: loop_frame_def)
    ultimately show "sid < dials s'" by fastforce
  qed
  have l: "\<forall>l \<in> open_listeners s'. l < listens s'"
    using c f by (simp add: consistent_def loop_frame_def)
  from r o l show ?thesis by (simp add: consistent_def)
qed

subsection \<open>Open sessions stay in the pool\<close>

text \<open>A reconnect overwrites a slot only when its session is absent or closed.\<close>

lemma covered_dispatch:
  assumes "covered d0 s"
  shows "covered d0 (state_of (dispatch e conn rr s))"
proof (cases rule: dispatch_cases [where s = s and e = e and conn = conn and rr = rr])
  case (failed idx config err s')
  with createSession_Inl(1) [OF failed(6)] createSession_frame(2) [OF failed(6)] assms
  show ?thesis by (auto simp: covered_def)
next
  case (replaced idx config s')
  note o = createSession_Inr(2) [OF replaced(6)]
  have "Some sid \<in> set ((proxySessions s)[idx := Some (dials s)])"
    if "sid \<in> open_sessions s'" "d0 \<le> sid" for sid
  proof (cases "sid = dials s")
    case True
    with replaced(2) show ?thesis by (simp add: set_update_memI)
  next
    case False
    with that o have op: "sid \<in> open_sessions s" by simp
    with assms that have "Some sid \<in> set (proxySessions s)" by (simp add: covered_def)
    then obtain j where j: "j < length (proxySessions s)" "proxySessions s ! j = Some sid"
      by (auto simp: in_set_conv_nth)
    from replaced(4) op have "proxySessions s ! idx \<noteq> Some sid"
      by (auto simp: slot_dead_def IsClosed_def split: option.splits)
    with j have "j \<noteq> idx" by auto
    with j have "(proxySessions s)[idx := Some (dials s)] ! j = Some sid" by simp
    with j(1) show ?thesis by (metis length_list_update nth_mem)
  qed
  with replaced show ?thesis by (simp add: covered_def)
qed (simp_all add: assms)

lemma covered_peerCloses: "covered d0 s \<Longrightarrow> covered d0 (peerCloses sids s)"
  by (simp add: covered_def)

lemma covered_iteration:
  assumes "covered d0 s"
  shows "covered d0 (state_of (iteration e inp rr s))"
proof (cases "stopChan s = ChanClosed")
  case True
  with assms show ?thesis by (simp add: iteration_def)
next
  case False
  note c1 = covered_peerCloses [OF assms, of "fst inp"]
  show ?thesis
  proof (cases "snd inp")
    case (AcceptConn conn)
    with False covered_dispatch [OF c1, of e conn rr] show ?thesis
      by (simp add: iteration_def Let_def)
  next
    case (AcceptError err)
    with False c1 show ?thesis by (simp add: iteration_def Let_def)
  qed
qed

lemma covered_acceptLoop_from:
  "covered d0 s \<Longrightarrow> acceptLoop_from e inps rr s = (as, en, rr', s') \<Longrightarrow> covered d0 s'"
proof (induction inps arbitrary: rr s as)
  case Nil
  then show ?case by simp
next
  case (Cons inp inps)
  note it = covered_iteration [OF Cons.prems(1), of e inp rr]
  show ?case
  proof (cases "iteration e inp rr s")
    case (Next a rr1 s1)
    obtain as1 r1 where rest: "acceptLoop_from e inps rr1 s1 = (as1, r1)"
      by (rule prod.exhaust)
    with Next Cons.prems(2) have r1: "r1 = (en, rr', s')" by auto
    from it Next have "covered d0 s1" by simp
    then show ?thesis using rest [unfolded r1] by (rule Cons.IH)
  next
    case (Return as1 s1)
    with it Cons.prems(2) show ?thesis by auto
  next
    case (Panic msg s1)
    with it Cons.prems(2) show ?thesis by auto
  qed
qed

subsection \<open>Start, stop and the reachable states\<close>

lemma closeAll_frame [simp]:
  "proxyListener (closeAll xs s) = proxyListener s"
  "proxySessions (closeAll xs s) = proxySessions s"
  "proxyRunning (closeAll xs s) = proxyRunning s"
  "proxyConfig (closeAll xs s) = proxyConfig s"
  "stopChan (closeAll xs s) = stopChan s"
  "listens (closeAll xs s) = listens s"
  "open_listeners (closeAll xs s) = open_listeners s"
  "dials (closeAll xs s) = dials s"
  "acceptLoops (closeAll xs s) = acceptLoops s"
  unfolding closeAll_def
  by (induction xs arbitrary: s; simp split: option.splits)+

lemma closeAll_open:
  "open_sessions (closeAll xs s) = open_sessions s - {sid. Some sid \<in> set xs}"
  unfolding closeAll_def
proof (induction xs arbitrary: s)
  case Nil
  then show ?case by simp
next
  case (Cons x xs)
  then show ?case by (cases x) auto
qed

lemma StopProxy_running:
  assumes "proxyRunning s" and "stopChan s = ChanOpen"
  shows "\<exists>s'. StopProxy s = Inr s' \<and> \<not> proxyRunning s' \<and> stopChan s' = ChanClosed \<and>
    proxyListener s' = None \<and> proxySessions s' = [] \<and> proxyConfig s' = None \<and>
    listens s' = listens s \<and> dials s' = dials s \<and> acceptLoops s' = acceptLoops s \<and>
    open_listeners s' =
      open_listeners s - (case proxyListener s of None \<Rightarrow> {} | Some l \<Rightarrow> {l}) \<and>
    open_sessions s' = open_sessions s - {sid. Some sid \<in> set (proxySessions s)}"
  using assms
  by (cases "proxyListener s") (simp_all add: StopProxy_def Let_def closeAll_open closeListener_def)

lemma StopProxy_stopped: "\<not> proxyRunning s \<Longrightarrow> StopProxy s = Inr s"
  by (simp add: StopProxy_def)

lemma consistent_StopProxy:
  assumes c: "consistent s" and st: "StopProxy s = Inr s'"
  shows "consistent s'"
proof (cases "proxyRunning s")
  case False
  with st c show ?thesis by (simp add: StopProxy_stopped)
next
  case True
  with c have "stopChan s = ChanOpen" by (simp add: consistent_def running_ok_def)
  from StopProxy_running [OF True this] st
  have "\<not> proxyRunning s'" "listens s' = listens s" "dials s' = dials s"
    "open_listeners s' \<subseteq> open_listeners s" "open_sessions s' \<subseteq> open_sessions s"
    by auto
  with c show ?thesis by (auto simp: consistent_def)
qed

lemma StartProxy_success:
  assumes "StartProxy e j s = ([], s')"
  shows "\<exists>config. 1 \<le> Conn config \<and> proxyConfig s' = Some config \<and>
    \<not> proxyRunning s \<and>
    proxySessions s' = map Some [dials s..<dials s'] \<and>
    dials s' = dials s + nat (Conn config) \<and>
    open_sessions s' = open_sessions s \<union> {dials s..<dials s'} \<and>
    proxyRunning s' \<and> stopChan s' = ChanOpen \<and>
    proxyListener s' = Some (listens s) \<and> listens s' = Suc (listens s) \<and>
    open_listeners s' = insert (listens s) (open_listeners s) \<and>
    acceptLoops s' = Suc (acceptLoops s)"
  using assms
proof (cases rule: StartProxy_cases)
  case (success config s3)
  let ?s2 = "s\<lparr>listens := Suc (listens s), proxyListener := Some (listens s),
            open_listeners := insert (listens s) (open_listeners s),
            proxySessions := replicate (nat (Conn config)) None\<rparr>"
  from populate_result [OF success(4)]
  have fr: "proxyListener s3 = Some (listens s)" "listens s3 = Suc (listens s)"
    and d: "dials s3 = dials s + nat (Conn config)"
    and o: "open_sessions s3 = open_sessions s \<union> {dials s..<dials s3}"
    and l: "open_listeners s3 = insert (listens s) (open_listeners s)"
    and p: "proxySessions s3 = map Some [dials s..<dials s3]"
    and al: "acceptLoops s3 = acceptLoops s"
    by simp_all
  with success show ?thesis by simp
qed simp_all

lemma running_ok_StartProxy:
  assumes "StartProxy e j s = ([], s')"
  shows "running_ok s'"
proof -
  from StartProxy_success [OF assms] obtain config where
    "1 \<le> Conn config" "proxyConfig s' = Some config"
    "proxySessions s' = map Some [dials s..<dials s']"
    "dials s' = dials s + nat (Conn config)"
    "proxyRunning s'" "stopChan s' = ChanOpen" "proxyListener s' = Some (listens s)"
    by blast
  then show ?thesis by (auto simp: running_ok_def)
qed

lemma StartProxy_failure:
  assumes "StartProxy e j s = (res, s')" and "res \<noteq> []"
  shows "proxyRunning s' = proxyRunning s"
  using assms
proof (cases rule: StartProxy_cases)
  case (session config err)
  from populate_result [OF session(4)] show ?thesis by simp
qed simp_all

lemma consistent_StartProxy:
  assumes c: "consistent s" and st: "StartProxy e j s = (res, s')"
  shows "consistent s'"
  using st
proof (cases rule: StartProxy_cases)
  case (listen err)
  with c show ?thesis by (auto simp: consistent_def)
next
  case (session config err)
  let ?s2 = "s\<lparr>listens := Suc (listens s), proxyListener := Some (listens s),
            open_listeners := insert (listens s) (open_listeners s),
            proxySessions := replicate (nat (Conn config)) None\<rparr>"
  from populate_result [OF session(4)]
  have "proxyRunning s' = proxyRunning s" "listens s' = Suc (listens s)"
    "dials s \<le> dials s'" "open_sessions s' \<subseteq> open_sessions s \<union> {dials s..<dials s'}"
    "open_listeners s' = insert (listens s) (open_listeners s) - {listens s}"
    by simp_all
  with c session(1) show ?thesis by (fastforce simp: consistent_def)
next
  case (success config s3)
  from StartProxy_success [OF st [unfolded success(2)]]
  have "listens s' = Suc (listens s)" "dials s \<le> dials s'"
    "open_sessions s' = open_sessions s \<union> {dials s..<dials s'}"
    "open_listeners s' = insert (listens s) (open_listeners s)"
    by auto
  with c running_ok_StartProxy [OF st [unfolded success(2)]] show ?thesis
    by (fastforce simp: consistent_def)
qed (simp_all add: c)

lemma consistent_init: "consistent init_state"
  by (simp add: consistent_def init_state_def)

lemma consistent_peerCloses: "consistent s \<Longrightarrow> consistent (peerCloses sids s)"
  by (rule consistent_loop_frame [OF _ loop_frame_peerCloses])

lemma reachable_consistent: "reachable e s \<Longrightarrow> consistent s"
proof (induction rule: reachable.induct)
  case reach_init
  show ?case by (rule consistent_init)
next
  case (reach_start s configJson res s')
  then show ?case by (simp add: consistent_StartProxy)
next
  case (reach_stop s s')
  then show ?case by (simp add: consistent_StopProxy)
next
  case (reach_next s inp rr a rr' s')
  with loop_frame_iteration [of s e inp rr] show ?case
    by (simp add: consistent_loop_frame)
next
  case (reach_return s inp rr as s')
  with loop_frame_iteration [of s e inp rr] show ?case
    by (simp add: consistent_loop_frame)
next
  case (reach_close s sids)
  then show ?case by (simp add: consistent_peerCloses)
qed

subsection \<open>A session that stays open stays in its slot\<close>

lemma holds_peerCloses: "holds idx sid s \<Longrightarrow> sid \<notin> set sids \<Longrightarrow> holds idx sid (peerCloses sids s)"
  by (simp add: holds_def)

lemma reconnect_keeps:
  assumes h: "holds idx sid s" and j: "j \<noteq> idx"
  shows "case reconnect e conn j rr' s of
           Next a rr'' s' \<Rightarrow> keeps idx sid a \<and> holds idx sid s'
         | Return as s' \<Rightarrow> list_all (keeps idx sid) as \<and> holds idx sid s'
         | Panic msg s' \<Rightarrow> holds idx sid s'"
proof (cases "proxyConfig s")
  case None
  with h show ?thesis by (simp add: reconnect_def)
next
  case (Some config)
  obtain r s1 where cs: "createSession e config s = (r, s1)" by (rule prod.exhaust)
  note fr = createSession_frame [OF cs]
  show ?thesis
  proof (cases r)
    case (Inl err)
    from createSession_Inl(2) [OF cs [unfolded Inl]] h have "sid \<in> open_sessions s1"
      by (auto simp: holds_def)
    with Some cs Inl h j fr show ?thesis
      by (simp add: reconnect_def holds_def)
  next
    case (Inr n)
    from createSession_Inr [OF cs [unfolded Inr]] h have "sid \<in> open_sessions s1"
      by (auto simp: holds_def)
    with Some cs Inr h j fr show ?thesis
      by (simp add: reconnect_def holds_def)
  qed
qed

lemma dispatch_keeps:
  assumes h: "holds idx sid s"
  shows "case dispatch e conn rr s of
           Next a rr' s' \<Rightarrow> keeps idx sid a \<and> holds idx sid s'
         | Return as s' \<Rightarrow> list_all (keeps idx sid) as \<and> holds idx sid s'
         | Panic msg s' \<Rightarrow> holds idx sid s'"
proof -
  let ?j = "nat (sint rr smod int (length (proxySessions s)))"
  show ?thesis
  proof (cases "?j = idx")
    case True
    with h have "proxySessions s ! ?j = Some sid" "\<not> IsClosed sid s"
      by (simp_all add: holds_def IsClosed_def)
    with h True show ?thesis
      by (simp add: dispatch_def Let_def)
  next
    case False
    from reconnect_keeps [OF h False, of e conn "rr + 1"] h False show ?thesis
      by (auto simp: dispatch_def Let_def split: option.splits)
  qed
qed

lemma iteration_keeps:
  assumes h: "holds idx sid s" and "sid \<notin> set (fst inp)"
  shows "case iteration e inp rr s of
           Next a rr' s' \<Rightarrow> keeps idx sid a \<and> holds idx sid s'
         | Return as s' \<Rightarrow> list_all (keeps idx sid) as \<and> holds idx sid s'
         | Panic msg s' \<Rightarrow> holds idx sid s'"
proof -
  have h1: "holds idx sid (peerCloses (fst inp) s)"
    using assms by (rule holds_peerCloses)
  show ?thesis
  proof (cases "snd inp")
    case (AcceptConn conn)
    with h h1 dispatch_keeps [OF h1, of e conn rr] show ?thesis
      by (simp add: iteration_def Let_def)
  next
    case (AcceptError err)
    with h h1 show ?thesis
      by (simp add: iteration_def Let_def)
  qed
qed

lemma acceptLoop_from_keeps:
  assumes "holds idx sid s" and "sid \<notin> closed_meanwhile inps"
    and "acceptLoop_from e inps rr s = (as, en, rr', s')"
  shows "list_all (keeps idx sid) as \<and> holds idx sid s'"
  using assms
proof (induction inps arbitrary: rr s as)
  case Nil
  then show ?case by simp
next
  case (Cons inp inps)
  from Cons.prems(2) have d1: "sid \<notin> set (fst inp)" and d2: "sid \<notin> closed_meanwhile inps"
    by (simp_all add: closed_meanwhile_def)
  note it = iteration_keeps [OF Cons.prems(1) d1, of e rr]
  show ?case
  proof (cases "iteration e inp rr s")
    case (Next a rr1 s1)
    obtain as1 r1 where rest: "acceptLoop_from e inps rr1 s1 = (as1, r1)"
      by (rule prod.exhaust)
    with Next Cons.prems(3) have as: "as = a # as1" and r1: "r1 = (en, rr', s')"
      by auto
    from it Next have "keeps idx sid a" "holds idx sid s1" by simp_all
    with Cons.IH [OF _ d2 rest [unfolded r1]] as show ?thesis by simp
  next
    case (Return as1 s1)
    with it Cons.prems(3) show ?thesis by auto
  next
    case (Panic msg s1)
    with it Cons.prems(3) show ?thesis by auto
  qed
qed

subsection \<open>The dispatch to a dead slot\<close>

lemma reachable_running_ok: "reachable e s \<Longrightarrow> IsRunning s \<Longrightarrow> running_ok s"
  using reachable_consistent [of e s] by (simp add: consistent_def IsRunning_def)

lemma iteration_dead_slot:
  assumes re: "reachable e s" and run: "IsRunning s" and k: "k < 2 ^ 63"
    and dead: "slot_dead (peerCloses closed s) (k mod length (proxySessions s))"
  obtains (failed) config err s' where
      "proxyConfig s = Some config"
      "createSession e config (peerCloses closed s) = (Inl err, s')"
      "iteration e (closed, AcceptConn conn) (of_nat k) s =
         Next (Drop conn (k mod length (proxySessions s))) (of_nat (Suc k)) s'"
  | (replaced) config s' where
      "proxyConfig s = Some config"
      "createSession e config (peerCloses closed s) = (Inr (dials s), s')"
      "iteration e (closed, AcceptConn conn) (of_nat k) s =
         Next (Forward conn (k mod length (proxySessions s)) (dials s)) (of_nat (Suc k))
           (s'\<lparr>proxySessions :=
                 (proxySessions s)[k mod length (proxySessions s) := Some (dials s)]\<rparr>)"
proof -
  let ?s1 = "peerCloses closed s"
  let ?N = "length (proxySessions s)"
  let ?rr = "of_nat k :: 64 word"
  from reachable_running_ok [OF re run] have ok: "running_ok s" .
  then have ok1: "running_ok ?s1" by simp
  from ok have N: "0 < ?N" and ch: "stopChan s \<noteq> ChanClosed"
    by (auto simp: running_ok_def)
  have it: "iteration e (closed, AcceptConn conn) ?rr s = dispatch e conn ?rr ?s1"
    using ch by (simp add: iteration_def Let_def)
  have rr: "sint ?rr = int k" using k by (rule sint_of_nat_64)
  have idx: "sint ?rr smod int (length (proxySessions ?s1)) = int (k mod ?N)"
    using N rr by (simp add: smod_nat)
  have suc: "?rr + 1 = of_nat (Suc k)" by simp
  show ?thesis
  proof (cases rule: dispatch_cases [where s = ?s1 and e = e and conn = conn and rr = ?rr])
    case stopped
    with ok1 show ?thesis by (simp add: running_ok_def)
  next
    case empty
    with ok1 show ?thesis by (simp add: running_ok_def)
  next
    case negative
    with idx show ?thesis by simp
  next
    case (live i session)
    with idx have "i = k mod ?N" by simp
    with live dead show ?thesis by (simp add: slot_dead_def IsClosed_def)
  next
    case (noconfig i)
    with ok1 show ?thesis by (simp add: running_ok_def)
  next
    case (failed i config err s')
    with idx have i: "i = k mod ?N" by simp
    from failed(5) have c: "proxyConfig s = Some config" by simp
    from that(1) [OF c failed(6)] failed(7) it i suc show ?thesis by simp
  next
    case (replaced i config s')
    with idx have i: "i = k mod ?N" by simp
    from replaced(5) have c: "proxyConfig s = Some config" by simp
    from replaced(6) have cs: "createSession e config ?s1 = (Inr (dials s), s')" by simp
    from that(2) [OF c cs] replaced(7) it i suc show ?thesis by simp
  qed
qed

subsection \<open>The counter beyond its range\<close>

text \<open>
  When the counter has wrapped, the index is negative and the dispatch panics, unless the
  number of slots divides the counter; so whatever the loop dispatches, it dispatches to the
  slot \<open>k mod N\<close>.
\<close>

lemma smod_neg_nat: "0 < n \<Longrightarrow> (- int a) smod int n = - int (a mod n)"
  by (simp add: smod_int_alt_def zmod_int sgn_if)

lemma counter_slot:
  assumes N: "0 < N" and ok: "counter_ok N k"
    and nn: "0 \<le> sint (of_nat k :: 64 word) smod int N"
  shows "sint (of_nat k :: 64 word) smod int N = int (k mod N) \<and> counter_ok N (Suc k)"
proof -
  consider (one) "N = 1" | (low) "N \<noteq> 1" "k < 2 ^ 63" | (edge) "N \<noteq> 1" "k = 2 ^ 63"
    | (over) "N \<noteq> 1" "k = 2 ^ 63 + 1" "N dvd 2 ^ 63"
    using ok unfolding counter_ok_def by (metis le_neq_implies_less)
  then show ?thesis
  proof cases
    case one
    then show ?thesis by (simp add: smod_int_alt_def counter_ok_def)
  next
    case low
    then have "sint (of_nat k :: 64 word) = int k" by (simp add: sint_of_nat_64)
    with N low show ?thesis by (simp add: smod_nat counter_ok_def)
  next
    case edge
    have "sint (of_nat k :: 64 word) = - int (2 ^ 63)"
      unfolding edge(2) by simp
    then have m: "sint (of_nat k :: 64 word) smod int N = - int (2 ^ 63 mod N)"
      using N by (simp only: smod_neg_nat)
    with nn have z: "(2 :: nat) ^ 63 mod N = 0" by simp
    then have "N dvd 2 ^ 63" by (simp add: dvd_eq_mod_eq_0)
    with m z edge show ?thesis by (simp add: counter_ok_def)
  next
    case over
    have "sint (of_nat k :: 64 word) = - int (2 ^ 63 - 1)"
      unfolding over(2) by simp
    then have m: "sint (of_nat k :: 64 word) smod int N = - int ((2 ^ 63 - 1) mod N)"
      using N by (simp only: smod_neg_nat)
    with nn have z: "((2 :: nat) ^ 63 - 1) mod N = 0" by simp
    then have "N dvd 2 ^ 63 - 1" by (simp add: dvd_eq_mod_eq_0)
    with over(3) have "N dvd 2 ^ 63 - (2 ^ 63 - 1)" by (rule dvd_diff_nat)
    then have "N dvd 1" by simp
    with over(1) show ?thesis by simp
  qed
qed

lemma dispatch_slot:
  assumes ok: "running_ok s" and c: "counter_ok (length (proxySessions s)) k"
  shows "(\<exists>msg s'. dispatch e conn (of_nat k) s = Panic msg s') \<or>
    (\<exists>a s'. dispatch e conn (of_nat k) s = Next a (of_nat (Suc k)) s' \<and> running_ok s' \<and>
       length (proxySessions s') = length (proxySessions s) \<and>
       assigned a = Some (conn, k mod length (proxySessions s)) \<and>
       counter_ok (length (proxySessions s)) (Suc k))"
proof -
  let ?N = "length (proxySessions s)"
  let ?rr = "of_nat k :: 64 word"
  from ok have N: "0 < ?N" by (simp add: running_ok_def)
  have suc: "?rr + 1 = of_nat (Suc k)" by simp
  have slot: "i = k mod ?N \<and> counter_ok ?N (Suc k)" if "int i = sint ?rr smod int ?N" for i
  proof -
    from that have "0 \<le> sint ?rr smod int ?N" by (metis of_nat_0_le_iff)
    from counter_slot [OF N c this] that show ?thesis by simp
  qed
  show ?thesis
  proof (cases rule: dispatch_cases [where s = s and e = e and conn = conn and rr = ?rr])
    case stopped
    with ok show ?thesis by (simp add: running_ok_def)
  next
    case empty
    then show ?thesis by simp
  next
    case negative
    then show ?thesis by simp
  next
    case (live i session)
    with slot [OF live(3)] ok suc show ?thesis by simp
  next
    case (noconfig i)
    then show ?thesis by simp
  next
    case (failed i config err s')
    from running_ok_createSession [OF failed(6)] ok have "running_ok s'" by simp
    with failed slot [OF failed(3)] createSession_frame(2) [OF failed(6)] suc show ?thesis
      by simp
  next
    case (replaced i config s')
    from running_ok_createSession [OF replaced(6)] ok have "running_ok s'" by simp
    with replaced(2) N
    have "running_ok (s'\<lparr>proxySessions := (proxySessions s)[i := Some (dials s)]\<rparr>)"
      by (auto simp: running_ok_def)
    with replaced slot [OF replaced(3)] suc show ?thesis by simp
  qed
qed

lemma acceptLoop_from_prefix:
  assumes "running_ok s" and "counter_ok (length (proxySessions s)) k"
    and "acceptLoop_from e inps (of_nat k) s = (as, en, rr', s')"
  shows "assignments as =
      round_robin (length (proxySessions s)) k (take (length (assignments as)) (accepted inps)) \<and>
    en \<noteq> Returned"
  using assms
proof (induction inps arbitrary: k s as)
  case Nil
  then show ?case by simp
next
  case (Cons inp inps)
  from Cons.prems(1) have ch: "stopChan s \<noteq> ChanClosed" by (simp add: running_ok_def)
  show ?case
  proof (cases "snd inp")
    case (AcceptError err)
    then obtain cl where inp: "inp = (cl, AcceptError err)" by (cases inp) simp
    have it: "iteration e inp (of_nat k) s = Next (AcceptFailed err) (of_nat k) (peerCloses cl s)"
      using ch inp by (simp add: iteration_def Let_def)
    obtain as1 r1 where rest: "acceptLoop_from e inps (of_nat k) (peerCloses cl s) = (as1, r1)"
      by (rule prod.exhaust)
    with it Cons.prems(3) have as: "as = AcceptFailed err # as1" and r1: "r1 = (en, rr', s')"
      by auto
    have ok1: "running_ok (peerCloses cl s)" using Cons.prems(1) by simp
    have c1: "counter_ok (length (proxySessions (peerCloses cl s))) k"
      using Cons.prems(2) by simp
    from Cons.IH [OF ok1 c1 rest [unfolded r1]] as inp show ?thesis by simp
  next
    case (AcceptConn conn)
    then obtain cl where inp: "inp = (cl, AcceptConn conn)" by (cases inp) simp
    let ?s1 = "peerCloses cl s"
    have it: "iteration e inp (of_nat k) s = dispatch e conn (of_nat k) ?s1"
      using ch inp by (simp add: iteration_def Let_def)
    have ok1: "running_ok ?s1" using Cons.prems(1) by simp
    have c1: "counter_ok (length (proxySessions ?s1)) k" using Cons.prems(2) by simp
    from dispatch_slot [OF ok1 c1, of e conn] show ?thesis
    proof (elim disjE exE conjE)
      fix msg s2
      assume "dispatch e conn (of_nat k) ?s1 = Panic msg s2"
      with it Cons.prems(3) show ?thesis by auto
    next
      fix a s2
      assume d: "dispatch e conn (of_nat k) ?s1 = Next a (of_nat (Suc k)) s2"
        and ok2: "running_ok s2"
        and len: "length (proxySessions s2) = length (proxySessions ?s1)"
        and a: "assigned a = Some (conn, k mod length (proxySessions ?s1))"
        and c2: "counter_ok (length (proxySessions ?s1)) (Suc k)"
      obtain as1 r1 where rest: "acceptLoop_from e inps (of_nat (Suc k)) s2 = (as1, r1)"
        by (rule prod.exhaust)
      with it d Cons.prems(3) have as: "as = a # as1" and r1: "r1 = (en, rr', s')"
        by auto
      from c2 len have c2': "counter_ok (length (proxySessions s2)) (Suc k)" by simp
      from Cons.IH [OF ok2 c2' rest [unfolded r1]] as inp a len show ?thesis by simp
    qed
  qed
qed

subsection \<open>The statements about the accept loop\<close>

lemma round_robin_length: "length (round_robin N k0 conns) = length conns"
  by (induction conns arbitrary: k0) simp_all

lemma round_robin_nth:
  "k < length conns \<Longrightarrow> round_robin N k0 conns ! k = (conns ! k, (k0 + k) mod N)"
proof (induction conns arbitrary: k0 k)
  case Nil
  then show ?case by simp
next
  case (Cons conn conns)
  then show ?case by (cases k) simp_all
qed

text \<open>
  C2. In a reachable state in which the proxy is running with a pool of \<open>N\<close> slots, the
  \<open>k\<close>-th connection that the accept loop accepts (counting from 0) is assigned slot
  \<open>k mod N\<close>, in accept order, whatever the arrivals are: accept errors do not advance the
  counter, and every accepted connection does, whether it is forwarded or dropped after a
  failed reconnect. The loop does not return while the proxy is running. The counter is a
  64-bit \<^verbatim>\<open>int\<close>: for the first \<open>2 ^ 63\<close> accepted connections, which is as far as it counts,
  the loop does not panic either, so every one of them is assigned.
\<close>

theorem acceptLoop_round_robin:
  assumes "reachable e s" and "IsRunning s" and "acceptLoop e inps s = (as, en, rr, s')"
  shows "length (assignments as) \<le> length (accepted inps) \<and>
    (\<forall>k < length (assignments as).
       assignments as ! k = (accepted inps ! k, k mod length (proxySessions s))) \<and>
    en \<noteq> Returned \<and>
    (length (accepted inps) \<le> 2 ^ 63 \<longrightarrow>
       en = Blocked \<and> rr = of_nat (length (accepted inps)) \<and>
       length (assignments as) = length (accepted inps) \<and>
       assignments as = round_robin (length (proxySessions s)) 0 (accepted inps))"
proof -
  let ?N = "length (proxySessions s)"
  have ok: "running_ok s" using assms(1,2) by (rule reachable_running_ok)
  from assms(3) have lp: "acceptLoop_from e inps (of_nat 0) s = (as, en, rr, s')"
    by (simp add: acceptLoop_def)
  have c0: "counter_ok ?N 0" by (simp add: counter_ok_def)
  from acceptLoop_from_prefix [OF ok c0 lp]
  have pre: "assignments as = round_robin ?N 0 (take (length (assignments as)) (accepted inps))"
    and ret: "en \<noteq> Returned"
    by simp_all
  have "length (assignments as) =
      length (round_robin ?N 0 (take (length (assignments as)) (accepted inps)))"
    using pre by simp
  then have le: "length (assignments as) \<le> length (accepted inps)"
    by (simp add: round_robin_length)
  have nth: "assignments as ! k = (accepted inps ! k, k mod ?N)"
    if "k < length (assignments as)" for k
  proof -
    from that le have "k < length (take (length (assignments as)) (accepted inps))" by simp
    from round_robin_nth [OF this, of ?N 0] that
    have "round_robin ?N 0 (take (length (assignments as)) (accepted inps)) ! k =
        (accepted inps ! k, k mod ?N)"
      by simp
    with pre show ?thesis by simp
  qed
  have full: "en = Blocked \<and> rr = of_nat (length (accepted inps)) \<and>
       length (assignments as) = length (accepted inps) \<and>
       assignments as = round_robin ?N 0 (accepted inps)"
    if "length (accepted inps) \<le> 2 ^ 63"
    using acceptLoop_from_round_robin [OF ok _ lp] that
    by (simp add: round_robin_length)
  from le nth ret full show ?thesis by blast
qed

theorem acceptLoop_round_robin_witness:
  "reachable pool3_env pool3_state \<and> IsRunning pool3_state \<and>
   length (accepted seven_arrivals) \<le> 2 ^ 63 \<and>
   fst (acceptLoop pool3_env seven_arrivals pool3_state) =
     [Forward 10 0 0, Forward 11 1 1, Forward 12 2 2, Drop 13 0,
      Forward 14 1 1, Forward 15 2 2, Forward 16 0 4] \<and>
   assignments (fst (acceptLoop pool3_env seven_arrivals pool3_state)) =
     [(10, 0), (11, 1), (12, 2), (13, 0), (14, 1), (15, 2), (16, 0)]"
proof -
  have h0: "reachable pool3_env pool3_state"
    by (rule reach_start [OF reach_init, of pool3_env "[]"
          "fst (StartProxy pool3_env [] init_state)"])
       (simp add: pool3_state_def)
  have h1: "IsRunning pool3_state" by code_simp
  have len: "length (accepted seven_arrivals) = 7" by code_simp
  then have h2: "length (accepted seven_arrivals) \<le> 2 ^ 63" by simp
  have h3: "acceptLoop pool3_env seven_arrivals pool3_state =
      (fst (acceptLoop pool3_env seven_arrivals pool3_state),
       fst (snd (acceptLoop pool3_env seven_arrivals pool3_state)),
       fst (snd (snd (acceptLoop pool3_env seven_arrivals pool3_state))),
       snd (snd (snd (acceptLoop pool3_env seven_arrivals pool3_state))))"
    by simp
  have n: "length (proxySessions pool3_state) = 3" by code_simp
  have acc: "accepted seven_arrivals = [10, 11, 12, 13, 14, 15, 16]" by code_simp
  have tr: "fst (acceptLoop pool3_env seven_arrivals pool3_state) =
     [Forward 10 0 0, Forward 11 1 1, Forward 12 2 2, Drop 13 0,
      Forward 14 1 1, Forward 15 2 2, Forward 16 0 4]"
    by code_simp
  from acceptLoop_round_robin [OF h0 h1 h3] h2
  have "assignments (fst (acceptLoop pool3_env seven_arrivals pool3_state)) =
      round_robin (length (proxySessions pool3_state)) 0 (accepted seven_arrivals)"
    by blast
  then have "assignments (fst (acceptLoop pool3_env seven_arrivals pool3_state)) =
      round_robin 3 0 [10, 11, 12, 13, 14, 15, 16]"
    by (simp only: n acc)
  also have "\<dots> = [(10, 0), (11, 1), (12, 2), (13, 0), (14, 1), (15, 2), (16, 0)]"
    by code_simp
  finally show ?thesis using h0 h1 h2 tr by blast
qed

text \<open>
  C3. In a reachable state in which the proxy is running, when the slot chosen for the
  \<open>k\<close>-th accepted connection is empty or its session is closed, the pass makes exactly one
  call of \<^verbatim>\<open>createSession\<close>. The connection is forwarded exactly when that call succeeds;
  the session it is forwarded on is then the new one, which was not open before, is open
  now and is installed in the slot, the rest of the pool being as it was. From then on, as
  long as the peer does not close that session, every dispatch to the slot forwards on it,
  no reconnect of the slot takes place, and the slot still holds it.
\<close>

theorem reconnect_once_then_reuse:
  assumes re: "reachable e s" and run: "IsRunning s" and k: "k < 2 ^ 63"
    and dead: "slot_dead (peerCloses closed s) (k mod length (proxySessions s))"
  shows "\<exists>a s'.
    iteration e (closed, AcceptConn conn) (of_nat k) s = Next a (of_nat (Suc k)) s' \<and>
    dials s' = Suc (dials s) \<and>
    (a = Drop conn (k mod length (proxySessions s)) \<and> proxySessions s' = proxySessions s \<or>
     a = Forward conn (k mod length (proxySessions s)) (dials s) \<and>
     dials s \<notin> open_sessions s \<and> \<not> IsClosed (dials s) s' \<and>
     open_sessions s' = insert (dials s) (open_sessions s - set closed) \<and>
     proxySessions s' = (proxySessions s)[k mod length (proxySessions s) := Some (dials s)] \<and>
     (\<forall>inps rr as en rr' s''.
        dials s \<notin> closed_meanwhile inps \<and> acceptLoop_from e inps rr s' = (as, en, rr', s'') \<longrightarrow>
        list_all (keeps (k mod length (proxySessions s)) (dials s)) as \<and>
        proxySessions s'' ! (k mod length (proxySessions s)) = Some (dials s) \<and>
        \<not> IsClosed (dials s) s'')) \<and>
    (\<forall>config. proxyConfig s = Some config \<longrightarrow>
       (a = Forward conn (k mod length (proxySessions s)) (dials s)) =
       (\<exists>s1. createSession e config (peerCloses closed s) = (Inr (dials s), s1)))"
proof (cases rule: iteration_dead_slot [OF re run k dead, of conn])
  case (1 config err s')
  note fr = createSession_frame [OF 1(2)]
  from 1 fr show ?thesis by simp
next
  case (2 config s1)
  note replaced = 2
  let ?idx = "k mod length (proxySessions s)"
  let ?s' = "s1\<lparr>proxySessions := (proxySessions s)[?idx := Some (dials s)]\<rparr>"
  note fr = createSession_frame [OF replaced(2)]
  note new = createSession_Inr(2) [OF replaced(2)]
  from reachable_running_ok [OF re run] have "0 < length (proxySessions s)"
    by (simp add: running_ok_def)
  then have idx: "?idx < length (proxySessions s)" by simp
  from reachable_consistent [OF re] have fresh: "dials s \<notin> open_sessions s"
    by (auto simp: consistent_def)
  have h: "holds ?idx (dials s) ?s'"
    using idx fr new by (simp add: holds_def)
  have reuse: "list_all (keeps ?idx (dials s)) as \<and>
        proxySessions s'' ! ?idx = Some (dials s) \<and> \<not> IsClosed (dials s) s''"
    if "dials s \<notin> closed_meanwhile inps" "acceptLoop_from e inps rr ?s' = (as, en, rr', s'')"
    for inps rr as en rr' s''
    using acceptLoop_from_keeps [OF h that] by (simp add: holds_def IsClosed_def)
  have "iteration e (closed, AcceptConn conn) (of_nat k) s =
      Next (Forward conn ?idx (dials s)) (of_nat (Suc k)) ?s'"
    by (rule replaced(3))
  moreover have "dials ?s' = Suc (dials s)" using fr by simp
  moreover have "\<not> IsClosed (dials s) ?s'" using new by (simp add: IsClosed_def)
  moreover have "open_sessions ?s' = insert (dials s) (open_sessions s - set closed)"
    using new by simp
  moreover have "proxySessions ?s' = (proxySessions s)[?idx := Some (dials s)]" by simp
  moreover have "\<forall>config. proxyConfig s = Some config \<longrightarrow>
       (\<exists>s1. createSession e config (peerCloses closed s) = (Inr (dials s), s1))"
    using replaced(1,2) by auto
  ultimately show ?thesis using fresh reuse by blast
qed

theorem reconnect_once_then_reuse_witness:
  "reachable good_env good_state \<and> IsRunning good_state \<and> (1 :: nat) < 2 ^ 63 \<and>
   slot_dead (peerCloses [1] good_state) (1 mod length (proxySessions good_state)) \<and>
   (\<exists>a s'. iteration good_env ([1], AcceptConn 11) (of_nat 1) good_state =
        Next a (of_nat (Suc 1)) s' \<and> dials s' = Suc (dials good_state)) \<and>
   fst (acceptLoop good_env
          [([], AcceptConn 10), ([1], AcceptConn 11), ([], AcceptConn 12),
           ([], AcceptConn 13), ([], AcceptConn 14)] good_state) =
     [Forward 10 0 0, Forward 11 1 3, Forward 12 2 2, Forward 13 0 0, Forward 14 1 3]"
proof -
  have h0: "reachable good_env good_state"
    by (rule reach_start [OF reach_init, of good_env "[]"
          "fst (StartProxy good_env [] init_state)"])
       (simp add: good_state_def)
  have h1: "IsRunning good_state" by code_simp
  have h2: "(1 :: nat) < 2 ^ 63" by simp
  have h3: "slot_dead (peerCloses [1] good_state) (1 mod length (proxySessions good_state))"
    by code_simp
  have tr: "fst (acceptLoop good_env
          [([], AcceptConn 10), ([1], AcceptConn 11), ([], AcceptConn 12),
           ([], AcceptConn 13), ([], AcceptConn 14)] good_state) =
     [Forward 10 0 0, Forward 11 1 3, Forward 12 2 2, Forward 13 0 0, Forward 14 1 3]"
    by code_simp
  from reconnect_once_then_reuse [OF h0 h1 h2 h3, of 11] h0 h1 h2 h3 tr
  show ?thesis by blast
qed

text \<open>
  C4. In a reachable state in which the proxy is running, when the slot chosen for the
  \<open>k\<close>-th accepted connection is empty or closed and \<^verbatim>\<open>createSession\<close> fails, the pass closes
  the connection and does nothing else with it (no forwarder is started), the pool is as it
  was, the proxy is still running, and the loop goes on: the rest of the arrivals is
  processed, and the next accepted connection is dispatched to the next slot.
\<close>

theorem reconnect_failure_is_per_connection:
  assumes re: "reachable e s" and run: "IsRunning s" and k: "Suc k < 2 ^ 63"
    and dead: "slot_dead (peerCloses closed s) (k mod length (proxySessions s))"
    and cfg: "proxyConfig s = Some config"
    and fail: "createSession e config (peerCloses closed s) = (Inl err, s')"
  shows "iteration e (closed, AcceptConn conn) (of_nat k) s =
      Next (Drop conn (k mod length (proxySessions s))) (of_nat (Suc k)) s' \<and>
    proxySessions s' = proxySessions s \<and> open_sessions s' = open_sessions s - set closed \<and>
    IsRunning s' \<and> reachable e s' \<and>
    (\<forall>inps. acceptLoop_from e ((closed, AcceptConn conn) # inps) (of_nat k) s =
       (case acceptLoop_from e inps (of_nat (Suc k)) s' of
          (as, r) \<Rightarrow> (Drop conn (k mod length (proxySessions s)) # as, r))) \<and>
    (\<forall>closed' conn'. \<exists>a s''.
       iteration e (closed', AcceptConn conn') (of_nat (Suc k)) s' =
         Next a (of_nat (Suc (Suc k))) s'' \<and>
       assigned a = Some (conn', Suc k mod length (proxySessions s)) \<and> IsRunning s'')"
proof -
  let ?idx = "k mod length (proxySessions s)"
  from k have k0: "k < 2 ^ 63" by simp
  have it: "iteration e (closed, AcceptConn conn) (of_nat k) s =
      Next (Drop conn ?idx) (of_nat (Suc k)) s'"
    using cfg fail by (cases rule: iteration_dead_slot [OF re run k0 dead, of conn]) simp_all
  note fr = createSession_frame [OF fail]
  have pool: "proxySessions s' = proxySessions s" using fr by simp
  have "dials s \<notin> open_sessions s"
    using reachable_consistent [OF re] by (auto simp: consistent_def)
  with createSession_Inl [OF fail] have op: "open_sessions s' = open_sessions s - set closed"
    by auto
  have run': "IsRunning s'" using fr run by (simp add: IsRunning_def)
  have re': "reachable e s'" using re it by (rule reach_next)
  have loop: "acceptLoop_from e ((closed, AcceptConn conn) # inps) (of_nat k) s =
       (case acceptLoop_from e inps (of_nat (Suc k)) s' of
          (as, r) \<Rightarrow> (Drop conn ?idx # as, r))" for inps
    using it by simp
  have nxt: "\<exists>a s''.
       iteration e (closed', AcceptConn conn') (of_nat (Suc k)) s' =
         Next a (of_nat (Suc (Suc k))) s'' \<and>
       assigned a = Some (conn', Suc k mod length (proxySessions s)) \<and> IsRunning s''"
    for closed' conn'
  proof -
    have ok': "running_ok s'" using re' run' by (rule reachable_running_ok)
    have rr: "sint (of_nat (Suc k) :: 64 word) = int (Suc k)" using k by (rule sint_of_nat_64)
    from iteration_running [OF ok' rr, of e "(closed', AcceptConn conn')"]
    obtain a rr' s'' where
      "iteration e (closed', AcceptConn conn') (of_nat (Suc k)) s' = Next a rr' s''"
      "running_ok s''" "assigned a = Some (conn', Suc k mod length (proxySessions s'))"
      "rr' = of_nat (Suc k) + 1"
      by auto
    with pool show ?thesis by (auto simp: running_ok_def IsRunning_def)
  qed
  from it pool op run' re' loop nxt show ?thesis by blast
qed

theorem reconnect_failure_is_per_connection_witness:
  "reachable pool3_env pool3_state \<and> IsRunning pool3_state \<and> Suc 0 < 2 ^ 63 \<and>
   slot_dead (peerCloses [0] pool3_state) (0 mod length (proxySessions pool3_state)) \<and>
   proxyConfig pool3_state = Some (applyMode (applyDefaults (remote_config 3))) \<and>
   fst (createSession pool3_env (applyMode (applyDefaults (remote_config 3)))
          (peerCloses [0] pool3_state)) = Inl ''timeout'' \<and>
   iteration pool3_env ([0], AcceptConn 13) (of_nat 0) pool3_state =
     Next (Drop 13 (0 mod length (proxySessions pool3_state))) (of_nat (Suc 0))
       (snd (createSession pool3_env (applyMode (applyDefaults (remote_config 3)))
          (peerCloses [0] pool3_state)))"
proof -
  have h0: "reachable pool3_env pool3_state"
    by (rule reach_start [OF reach_init, of pool3_env "[]"
          "fst (StartProxy pool3_env [] init_state)"])
       (simp add: pool3_state_def)
  have h1: "IsRunning pool3_state" by code_simp
  have h2: "Suc 0 < 2 ^ 63" by simp
  have h3: "slot_dead (peerCloses [0] pool3_state) (0 mod length (proxySessions pool3_state))"
    by code_simp
  have h4: "proxyConfig pool3_state = Some (applyMode (applyDefaults (remote_config 3)))"
    by code_simp
  have h5: "fst (createSession pool3_env (applyMode (applyDefaults (remote_config 3)))
          (peerCloses [0] pool3_state)) = Inl ''timeout''"
    by code_simp
  then have h5': "createSession pool3_env (applyMode (applyDefaults (remote_config 3)))
      (peerCloses [0] pool3_state) =
      (Inl ''timeout'', snd (createSession pool3_env (applyMode (applyDefaults (remote_config 3)))
          (peerCloses [0] pool3_state)))"
    by (metis prod.collapse)
  from reconnect_failure_is_per_connection [OF h0 h1 h2 h3 h4 h5', of 13] h0 h1 h2 h3 h4 h5
  show ?thesis by blast
qed

section \<open>Start and stop\<close>

text \<open>
  C1, at a pool of two sessions where the first call of \<^verbatim>\<open>createSession\<close> succeeds and the
  second fails: \<^verbatim>\<open>StartProxy\<close> returns the session error, the proxy is not running and the
  listener is closed, but the session of slot 0 is still open and still in the pool
  variable, and \<^verbatim>\<open>StopProxy\<close>, which returns at once when the proxy is not running, does not
  close it either.
\<close>

theorem StartProxy_session_error_leaks:
  "fst (StartProxy leak_env [] init_state) = ''Session Error: timeout'' \<and>
   \<not> IsRunning (snd (StartProxy leak_env [] init_state)) \<and>
   open_listeners (snd (StartProxy leak_env [] init_state)) = {} \<and>
   proxySessions (snd (StartProxy leak_env [] init_state)) = [Some 0, None] \<and>
   open_sessions (snd (StartProxy leak_env [] init_state)) = {0} \<and>
   \<not> IsClosed 0 (snd (StartProxy leak_env [] init_state)) \<and>
   StopProxy (snd (StartProxy leak_env [] init_state)) =
     Inr (snd (StartProxy leak_env [] init_state))"
  by code_simp

text \<open>
  C7. In every reachable state \<^verbatim>\<open>StopProxy\<close> returns, and \<^verbatim>\<open>IsRunning\<close> is false afterwards.
  If the proxy was running, the listener and every session of the pool are closed; if it was
  not, the state is unchanged. After a successful \<^verbatim>\<open>StartProxy\<close> and any run of the accept
  loop, \<^verbatim>\<open>StopProxy\<close> leaves the listener of that start closed, and closed as well every
  session that the start created and every session created since.
\<close>

theorem StopProxy_stops:
  assumes re: "reachable e s"
  shows "(\<exists>s'. StopProxy s = Inr s' \<and> \<not> IsRunning s' \<and>
       (if IsRunning s
        then proxyListener s \<noteq> None \<and>
          (\<forall>l. proxyListener s = Some l \<longrightarrow> l \<notin> open_listeners s') \<and>
          (\<forall>sid. Some sid \<in> set (proxySessions s) \<longrightarrow> IsClosed sid s')
        else s' = s)) \<and>
    (\<forall>configJson s1 inps as en rr s2.
       StartProxy e configJson s = ([], s1) \<and> acceptLoop e inps s1 = (as, en, rr, s2) \<longrightarrow>
       (\<exists>s3. StopProxy s2 = Inr s3 \<and> \<not> IsRunning s3 \<and>
          listens s \<notin> open_listeners s3 \<and>
          (\<forall>sid. Some sid \<in> set (proxySessions s1) \<longrightarrow> IsClosed sid s3) \<and>
          (\<forall>sid. dials s \<le> sid \<longrightarrow> IsClosed sid s3)))"
proof -
  have c: "consistent s" using re by (rule reachable_consistent)
  have a: "\<exists>s'. StopProxy s = Inr s' \<and> \<not> IsRunning s' \<and>
       (if IsRunning s
        then proxyListener s \<noteq> None \<and>
          (\<forall>l. proxyListener s = Some l \<longrightarrow> l \<notin> open_listeners s') \<and>
          (\<forall>sid. Some sid \<in> set (proxySessions s) \<longrightarrow> IsClosed sid s')
        else s' = s)"
  proof (cases "IsRunning s")
    case False
    then show ?thesis by (simp add: IsRunning_def StopProxy_stopped)
  next
    case True
    then have ok: "running_ok s" using re by (simp add: reachable_running_ok)
    then have "proxyRunning s" "stopChan s = ChanOpen" "proxyListener s \<noteq> None"
      by (simp_all add: running_ok_def)
    with StopProxy_running [of s] True show ?thesis
      by (auto simp: IsRunning_def IsClosed_def)
  qed
  have b: "\<exists>s3. StopProxy s2 = Inr s3 \<and> \<not> IsRunning s3 \<and>
          listens s \<notin> open_listeners s3 \<and>
          (\<forall>sid. Some sid \<in> set (proxySessions s1) \<longrightarrow> IsClosed sid s3) \<and>
          (\<forall>sid. dials s \<le> sid \<longrightarrow> IsClosed sid s3)"
    if st: "StartProxy e configJson s = ([], s1)" and lp: "acceptLoop e inps s1 = (as, en, rr, s2)"
    for configJson s1 inps as en rr s2
  proof -
    from StartProxy_success [OF st] obtain config where
      pool: "proxySessions s1 = map Some [dials s..<dials s1]"
      and op: "open_sessions s1 = open_sessions s \<union> {dials s..<dials s1}"
      and run1: "proxyRunning s1" and ch1: "stopChan s1 = ChanOpen"
      and l1: "proxyListener s1 = Some (listens s)"
      by blast
    have cov1: "covered (dials s) s1"
      unfolding covered_def
    proof (intro ballI impI)
      fix sid
      assume "sid \<in> open_sessions s1" "dials s \<le> sid"
      moreover have "sid < dials s" if "sid \<in> open_sessions s"
        using c that by (simp add: consistent_def)
      ultimately have "sid \<in> {dials s..<dials s1}" using op by fastforce
      then show "Some sid \<in> set (proxySessions s1)" using pool by simp
    qed
    from lp have lp': "acceptLoop_from e inps 0 s1 = (as, en, rr, s2)"
      by (simp add: acceptLoop_def)
    from covered_acceptLoop_from [OF cov1 lp'] have cov2: "covered (dials s) s2" .
    from loop_frame_acceptLoop_from [OF lp'] run1 ch1 l1
    have run2: "proxyRunning s2" and ch2: "stopChan s2 = ChanOpen"
      and l2: "proxyListener s2 = Some (listens s)"
      by (simp_all add: loop_frame_def)
    from StopProxy_running [OF run2 ch2] l2 obtain s3 where
      s3: "StopProxy s2 = Inr s3" "\<not> proxyRunning s3"
      "open_listeners s3 = open_listeners s2 - {listens s}"
      "open_sessions s3 = open_sessions s2 - {sid. Some sid \<in> set (proxySessions s2)}"
      by auto
    have closed: "IsClosed sid s3" if "dials s \<le> sid" for sid
      using cov2 that s3(4) by (auto simp: covered_def IsClosed_def)
    have "IsClosed sid s3" if "Some sid \<in> set (proxySessions s1)" for sid
      using that pool closed by auto
    with s3 closed show ?thesis by (auto simp: IsRunning_def)
  qed
  from a b show ?thesis by blast
qed

theorem StopProxy_stops_witness:
  "reachable good_env good_state \<and> IsRunning good_state \<and>
   (\<exists>s'. StopProxy good_state = Inr s' \<and> \<not> IsRunning s' \<and> 0 \<notin> open_listeners s' \<and>
      IsClosed 0 s' \<and> IsClosed 1 s' \<and> IsClosed 2 s') \<and>
   reachable good_env init_state \<and> \<not> IsRunning init_state \<and>
   StopProxy init_state = Inr init_state \<and>
   StartProxy good_env [] init_state = ([], good_state) \<and>
   (\<exists>s3. StopProxy (snd (snd (snd (acceptLoop good_env seven_arrivals good_state)))) = Inr s3 \<and>
      \<not> IsRunning s3 \<and> (\<forall>sid. IsClosed sid s3))"
proof -
  have st: "StartProxy good_env [] init_state = ([], good_state)"
    unfolding good_state_def by code_simp
  have h0: "reachable good_env good_state"
    by (rule reach_start [OF reach_init st])
  have h1: "IsRunning good_state" by code_simp
  have pl: "proxyListener good_state = Some 0" by code_simp
  have ps: "proxySessions good_state = [Some 0, Some 1, Some 2]" by code_simp
  from StopProxy_stops [OF h0] h1 obtain s' where
    s': "StopProxy good_state = Inr s'" "\<not> IsRunning s'"
    "\<forall>l. proxyListener good_state = Some l \<longrightarrow> l \<notin> open_listeners s'"
    "\<forall>sid. Some sid \<in> set (proxySessions good_state) \<longrightarrow> IsClosed sid s'"
    by auto
  from s'(3) pl have a1: "0 \<notin> open_listeners s'" by simp
  from s'(4) ps have a2: "IsClosed 0 s'" "IsClosed 1 s'" "IsClosed 2 s'" by simp_all
  have i0: "\<not> IsRunning init_state" by code_simp
  from StopProxy_stops [OF reach_init, of good_env] i0
  have b1: "StopProxy init_state = Inr init_state" by auto
  have lp: "acceptLoop good_env seven_arrivals good_state =
      (fst (acceptLoop good_env seven_arrivals good_state),
       fst (snd (acceptLoop good_env seven_arrivals good_state)),
       fst (snd (snd (acceptLoop good_env seven_arrivals good_state))),
       snd (snd (snd (acceptLoop good_env seven_arrivals good_state))))"
    by simp
  have d0: "dials init_state = 0" by code_simp
  from StopProxy_stops [OF reach_init, of good_env] st lp d0
  obtain s3 where
    "StopProxy (snd (snd (snd (acceptLoop good_env seven_arrivals good_state)))) = Inr s3"
    "\<not> IsRunning s3" "\<forall>sid. IsClosed sid s3"
    by (metis le0)
  with h0 h1 s'(1,2) a1 a2 reach_init i0 b1 st show ?thesis by blast
qed

section \<open>Properties of the forwarder\<close>

lemma forwarder_inv_init: "forwarder_inv open_ok is_tcp forwarder_init"
  by (simp add: forwarder_inv_def forwarder_init_def)

lemma forwarder_inv_main:
  "forwarder_inv open_ok is_tcp f \<Longrightarrow> forwarder_inv open_ok is_tcp (main_step open_ok f)"
  by (cases "main f")
     (auto simp: forwarder_inv_def main_step_def pending_def split: if_splits)

lemma forwarder_inv_s2l:
  "forwarder_inv open_ok is_tcp f \<Longrightarrow> forwarder_inv open_ok is_tcp (s2l_step is_tcp f)"
  by (cases "s2l f"; cases "main f")
     (auto simp: forwarder_inv_def s2l_step_def pending_def split: if_splits)

lemma forwarder_inv_l2s:
  "forwarder_inv open_ok is_tcp f \<Longrightarrow> forwarder_inv open_ok is_tcp (l2s_step f)"
  by (cases "l2s f"; cases "main f")
     (auto simp: forwarder_inv_def l2s_step_def pending_def split: if_splits)

lemma forwarder_inv_step:
  "forwarder_inv open_ok is_tcp f \<Longrightarrow>
   forwarder_inv open_ok is_tcp (forwarder_step open_ok is_tcp t f)"
  by (cases t)
     (simp_all add: forwarder_step_def forwarder_inv_main forwarder_inv_s2l forwarder_inv_l2s)

lemma forwarder_inv_run:
  "forwarder_inv open_ok is_tcp f \<Longrightarrow>
   forwarder_inv open_ok is_tcp (forwarder_run open_ok is_tcp sched f)"
  by (induction sched arbitrary: f) (simp_all add: forwarder_inv_step)

lemma forwarder_inv_handleClient:
  "forwarder_inv open_ok is_tcp (handleClient open_ok is_tcp sched)"
  unfolding handleClient_def by (rule forwarder_inv_run [OF forwarder_inv_init])

text \<open>
  \<^verbatim>\<open>wg.Done()\<close> panics when the counter would drop below zero. It never does: a copy
  goroutine that is about to call it is still counted.
\<close>

lemma wg_Done_safe:
  "forwarder_inv open_ok is_tcp f \<Longrightarrow> s2l f = AtDone \<or> l2s f = AtDone \<Longrightarrow> 1 \<le> wg f"
  by (cases "main f") (auto simp: forwarder_inv_def pending_def split: if_splits)

lemma forwarder_finished_step:
  "main f = Finished \<Longrightarrow> s2l f = NotStarted \<Longrightarrow> l2s f = NotStarted \<Longrightarrow>
   forwarder_step open_ok is_tcp t f = f"
  by (cases t) (simp_all add: forwarder_step_def main_step_def s2l_step_def l2s_step_def)

lemma forwarder_finished_run:
  "main f = Finished \<Longrightarrow> s2l f = NotStarted \<Longrightarrow> l2s f = NotStarted \<Longrightarrow>
   forwarder_run open_ok is_tcp sched f = f"
  by (induction sched) (simp_all add: forwarder_finished_step)

text \<open>Once both copies end, \<^verbatim>\<open>handleClient\<close> returns, whatever has happened before.\<close>

lemma forwarder_run_append:
  "forwarder_run open_ok is_tcp (xs @ ys) f =
   forwarder_run open_ok is_tcp ys (forwarder_run open_ok is_tcp xs f)"
  by (induction xs arbitrary: f) simp_all

lemma s2l_step_others [simp]:
  "main (s2l_step is_tcp f) = main f" "l2s (s2l_step is_tcp f) = l2s f"
  by (cases "s2l f"; simp add: s2l_step_def)+

lemma l2s_step_others [simp]:
  "main (l2s_step f) = main f" "s2l (l2s_step f) = s2l f"
  by (cases "l2s f"; simp add: l2s_step_def)+

lemma s2l_step_pc:
  "s2l (s2l_step is_tcp f) =
     (case s2l f of NotStarted \<Rightarrow> NotStarted | Copying \<Rightarrow> AfterCopy | AfterCopy \<Rightarrow> AtDone
      | AtDone \<Rightarrow> Exited | Exited \<Rightarrow> Exited)"
  by (cases "s2l f") (simp_all add: s2l_step_def)

lemma l2s_step_pc:
  "l2s (l2s_step f) =
     (case l2s f of NotStarted \<Rightarrow> NotStarted | Copying \<Rightarrow> AfterCopy | AfterCopy \<Rightarrow> AtDone
      | AtDone \<Rightarrow> Exited | Exited \<Rightarrow> Exited)"
  by (cases "l2s f") (simp_all add: l2s_step_def)

lemma s2l_ends:
  "s2l f \<noteq> NotStarted \<Longrightarrow> s2l (s2l_step is_tcp (s2l_step is_tcp (s2l_step is_tcp f))) = Exited"
  by (cases "s2l f") (simp_all add: s2l_step_pc)

lemma l2s_ends:
  "l2s f \<noteq> NotStarted \<Longrightarrow> l2s (l2s_step (l2s_step (l2s_step f))) = Exited"
  by (cases "l2s f") (simp_all add: l2s_step_pc)

lemma main_step_pc:
  "main (main_step open_ok f) =
     (case main f of
        AtOpenStream \<Rightarrow> if open_ok then AtAdd else Finished
      | AtAdd \<Rightarrow> AtGo1 | AtGo1 \<Rightarrow> AtGo2 | AtGo2 \<Rightarrow> AtWait
      | AtWait \<Rightarrow> if wg f = 0 then AtDeferP2 else AtWait
      | AtDeferP2 \<Rightarrow> AtDeferP1 | AtDeferP1 \<Rightarrow> Finished | Finished \<Rightarrow> Finished)"
  by (cases "main f") (simp_all add: main_step_def)

lemma main_reaches_wait:
  assumes "forwarder_inv open_ok is_tcp f"
  shows "main (main_step open_ok (main_step open_ok (main_step open_ok (main_step open_ok f))))
     \<in> {AtWait, AtDeferP2, AtDeferP1, Finished}"
  by (cases "main f"; simp add: main_step_pc)

lemma copies_end:
  assumes inv: "forwarder_inv open_ok is_tcp f"
    and m: "main f \<in> {AtWait, AtDeferP2, AtDeferP1, Finished}"
  shows "main (forwarder_run open_ok is_tcp
      [StreamToLocal, StreamToLocal, StreamToLocal, LocalToStream, LocalToStream, LocalToStream,
       Main, Main, Main] f) = Finished"
proof -
  define f2 where "f2 = forwarder_run open_ok is_tcp
      [StreamToLocal, StreamToLocal, StreamToLocal, LocalToStream, LocalToStream, LocalToStream] f"
  have inv2: "forwarder_inv open_ok is_tcp f2"
    unfolding f2_def using inv by (rule forwarder_inv_run)
  have m2: "main f2 = main f"
    by (simp add: f2_def forwarder_step_def)
  have ended: "s2l f2 = Exited \<and> l2s f2 = Exited" if "main f = AtWait"
    using inv that by (simp add: f2_def forwarder_step_def forwarder_inv_def s2l_ends l2s_ends)
  have w: "wg f2 = 0" if "main f = AtWait"
  proof -
    from inv2 m2 that have "wg f2 = pending (s2l f2) + pending (l2s f2)"
      by (simp add: forwarder_inv_def)
    with ended [OF that] show ?thesis by (simp add: pending_def)
  qed
  have "main (main_step open_ok (main_step open_ok (main_step open_ok f2))) = Finished"
    using m m2 w by (auto simp: main_step_pc)
  then have "main (forwarder_run open_ok is_tcp [Main, Main, Main] f2) = Finished"
    by (simp add: forwarder_step_def)
  then show ?thesis
    using forwarder_run_append [of open_ok is_tcp
      "[StreamToLocal, StreamToLocal, StreamToLocal, LocalToStream, LocalToStream, LocalToStream]"
      "[Main, Main, Main]" f]
    by (simp add: f2_def)
qed

lemma forwarder_can_finish:
  assumes inv: "forwarder_inv open_ok is_tcp f"
  shows "main (forwarder_run open_ok is_tcp sched_finish f) = Finished"
proof -
  let ?f1 = "forwarder_run open_ok is_tcp [Main, Main, Main, Main] f"
  have "forwarder_inv open_ok is_tcp ?f1" using inv by (rule forwarder_inv_run)
  moreover have "main ?f1 \<in> {AtWait, AtDeferP2, AtDeferP1, Finished}"
    using main_reaches_wait [OF inv] by (simp add: forwarder_step_def)
  ultimately have "main (forwarder_run open_ok is_tcp
      [StreamToLocal, StreamToLocal, StreamToLocal, LocalToStream, LocalToStream, LocalToStream,
       Main, Main, Main] ?f1) = Finished"
    by (rule copies_end)
  then show ?thesis
    using forwarder_run_append [of open_ok is_tcp "[Main, Main, Main, Main]"
      "[StreamToLocal, StreamToLocal, StreamToLocal, LocalToStream, LocalToStream, LocalToStream,
       Main, Main, Main]" f]
    by (simp add: sched_finish_def)
qed

text \<open>
  C5. At every moment of a forwarder, under every schedule: when the copy from the stream
  to the local connection has returned, the next step of its goroutine closes the read half
  of the local connection when this is a TCP connection, does not close the connection
  itself, and touches neither the stream nor the other copy; when the copy from the local
  connection to the stream has returned, the next step of its goroutine closes the stream;
  and the local connection is closed only when \<^verbatim>\<open>handleClient\<close> has finished, which, when the
  stream was opened, is after both copy goroutines have ended.
\<close>

theorem handleClient_half_close:
  assumes "f = handleClient open_ok is_tcp sched"
  shows "(s2l f = AfterCopy \<longrightarrow>
      p1_read_closed (forwarder_step open_ok is_tcp StreamToLocal f) = is_tcp \<and>
      \<not> p1_closed (forwarder_step open_ok is_tcp StreamToLocal f) \<and>
      p2 (forwarder_step open_ok is_tcp StreamToLocal f) = p2 f \<and>
      l2s (forwarder_step open_ok is_tcp StreamToLocal f) = l2s f \<and>
      main (forwarder_step open_ok is_tcp StreamToLocal f) = main f \<and>
      s2l (forwarder_step open_ok is_tcp StreamToLocal f) = AtDone) \<and>
    (l2s f = AfterCopy \<longrightarrow>
      p2 (forwarder_step open_ok is_tcp LocalToStream f) = StreamClosed \<and>
      \<not> p1_closed (forwarder_step open_ok is_tcp LocalToStream f) \<and>
      p1_read_closed (forwarder_step open_ok is_tcp LocalToStream f) = p1_read_closed f \<and>
      s2l (forwarder_step open_ok is_tcp LocalToStream f) = s2l f \<and>
      main (forwarder_step open_ok is_tcp LocalToStream f) = main f \<and>
      l2s (forwarder_step open_ok is_tcp LocalToStream f) = AtDone) \<and>
    (p1_closed f \<longrightarrow> main f = Finished) \<and>
    (p1_closed f \<and> open_ok \<longrightarrow> s2l f = Exited \<and> l2s f = Exited)"
proof -
  have inv: "forwarder_inv open_ok is_tcp f"
    unfolding assms by (rule forwarder_inv_handleClient)
  have a: "p1_closed f \<longrightarrow> main f = Finished"
    using inv by (cases "main f") (simp_all add: forwarder_inv_def)
  have b: "p1_closed f \<and> open_ok \<longrightarrow> s2l f = Exited \<and> l2s f = Exited"
    using inv by (cases "main f") (simp_all add: forwarder_inv_def)
  have c: "p1_read_closed (forwarder_step open_ok is_tcp StreamToLocal f) = is_tcp \<and>
      \<not> p1_closed (forwarder_step open_ok is_tcp StreamToLocal f) \<and>
      p2 (forwarder_step open_ok is_tcp StreamToLocal f) = p2 f \<and>
      l2s (forwarder_step open_ok is_tcp StreamToLocal f) = l2s f \<and>
      main (forwarder_step open_ok is_tcp StreamToLocal f) = main f \<and>
      s2l (forwarder_step open_ok is_tcp StreamToLocal f) = AtDone"
    if s: "s2l f = AfterCopy"
  proof -
    have n: "\<not> p1_closed f" "\<not> p1_read_closed f"
      using inv s by (cases "main f"; simp add: forwarder_inv_def split: if_splits)+
    have "forwarder_step open_ok is_tcp StreamToLocal f =
        (if is_tcp then f\<lparr>p1_read_closed := True, s2l := AtDone\<rparr> else f\<lparr>s2l := AtDone\<rparr>)"
      using s by (simp add: forwarder_step_def s2l_step_def)
    with n show ?thesis by simp
  qed
  have d: "p2 (forwarder_step open_ok is_tcp LocalToStream f) = StreamClosed \<and>
      \<not> p1_closed (forwarder_step open_ok is_tcp LocalToStream f) \<and>
      p1_read_closed (forwarder_step open_ok is_tcp LocalToStream f) = p1_read_closed f \<and>
      s2l (forwarder_step open_ok is_tcp LocalToStream f) = s2l f \<and>
      main (forwarder_step open_ok is_tcp LocalToStream f) = main f \<and>
      l2s (forwarder_step open_ok is_tcp LocalToStream f) = AtDone"
    if s: "l2s f = AfterCopy"
  proof -
    have n: "\<not> p1_closed f"
      using inv s by (cases "main f"; simp add: forwarder_inv_def split: if_splits)
    have "forwarder_step open_ok is_tcp LocalToStream f = f\<lparr>p2 := StreamClosed, l2s := AtDone\<rparr>"
      using s by (simp add: forwarder_step_def l2s_step_def)
    with n show ?thesis by simp
  qed
  from a b c d show ?thesis by blast
qed

theorem handleClient_half_close_witness:
  "s2l (handleClient True True sched_remote_first) = AfterCopy \<and>
   p1_read_closed (forwarder_step True True StreamToLocal
     (handleClient True True sched_remote_first)) \<and>
   \<not> p1_closed (forwarder_step True True StreamToLocal
     (handleClient True True sched_remote_first)) \<and>
   l2s (forwarder_step True True StreamToLocal
     (handleClient True True sched_remote_first)) = Copying \<and>
   l2s (handleClient True True sched_local_first) = AfterCopy \<and>
   p2 (forwarder_step True True LocalToStream
     (handleClient True True sched_local_first)) = StreamClosed \<and>
   p1_closed (handleClient True True sched_complete) \<and>
   s2l (handleClient True True sched_complete) = Exited \<and>
   l2s (handleClient True True sched_complete) = Exited"
proof -
  have h1: "s2l (handleClient True True sched_remote_first) = AfterCopy" by code_simp
  have h2: "l2s (handleClient True True sched_remote_first) = Copying" by code_simp
  have h3: "l2s (handleClient True True sched_local_first) = AfterCopy" by code_simp
  have h4: "p1_closed (handleClient True True sched_complete)" by code_simp
  from handleClient_half_close [OF refl, of True True sched_remote_first]
    handleClient_half_close [OF refl, of True True sched_local_first]
    handleClient_half_close [OF refl, of True True sched_complete]
    h1 h2 h3 h4
  show ?thesis by simp
qed

text \<open>
  C6. At every moment of a forwarder, under every schedule: \<^verbatim>\<open>handleClient\<close> gets past
  \<^verbatim>\<open>wg.Wait()\<close> and returns only when both copy goroutines have ended; when it has returned
  the local connection is closed and the stream, if it was opened, is closed. When
  \<^verbatim>\<open>OpenStream\<close> fails, no copy goroutine is ever started and the stream is never opened, and
  the first step of \<^verbatim>\<open>handleClient\<close> closes the local connection and returns. And it does
  return: every run, continued so that both copies end, gets to the return.
\<close>

theorem handleClient_teardown:
  assumes "f = handleClient open_ok is_tcp sched"
  shows "(main f = Finished \<longrightarrow> p1_closed f \<and> (p2 f = NotOpened \<or> p2 f = StreamClosed)) \<and>
    (main f = Finished \<and> open_ok \<longrightarrow>
       s2l f = Exited \<and> l2s f = Exited \<and> p2 f = StreamClosed) \<and>
    (main f = AtDeferP2 \<or> main f = AtDeferP1 \<longrightarrow> s2l f = Exited \<and> l2s f = Exited) \<and>
    (p2 f \<noteq> NotOpened \<longrightarrow> open_ok) \<and>
    (\<not> open_ok \<longrightarrow>
       s2l f = NotStarted \<and> l2s f = NotStarted \<and> p2 f = NotOpened \<and>
       (main f = AtOpenStream \<or> main f = Finished) \<and>
       main (handleClient open_ok is_tcp (Main # sched)) = Finished \<and>
       p1_closed (handleClient open_ok is_tcp (Main # sched))) \<and>
    main (handleClient open_ok is_tcp (sched @ sched_finish)) = Finished"
proof -
  have inv: "forwarder_inv open_ok is_tcp f"
    unfolding assms by (rule forwarder_inv_handleClient)
  have a: "main f = Finished \<longrightarrow> p1_closed f \<and> (p2 f = NotOpened \<or> p2 f = StreamClosed)"
    using inv by (cases "main f") (simp_all add: forwarder_inv_def split: if_splits)
  have b: "main f = Finished \<and> open_ok \<longrightarrow>
       s2l f = Exited \<and> l2s f = Exited \<and> p2 f = StreamClosed"
    using inv by (cases "main f") (simp_all add: forwarder_inv_def split: if_splits)
  have c: "main f = AtDeferP2 \<or> main f = AtDeferP1 \<longrightarrow> s2l f = Exited \<and> l2s f = Exited"
    using inv by (cases "main f") (simp_all add: forwarder_inv_def)
  have d: "p2 f \<noteq> NotOpened \<longrightarrow> open_ok"
    using inv by (cases "main f") (auto simp: forwarder_inv_def split: if_splits)
  have e: "s2l f = NotStarted \<and> l2s f = NotStarted \<and> p2 f = NotOpened \<and>
       (main f = AtOpenStream \<or> main f = Finished)" if "\<not> open_ok"
    using inv that by (cases "main f") (auto simp: forwarder_inv_def split: if_splits)
  have g: "main (handleClient open_ok is_tcp (Main # sched)) = Finished \<and>
       p1_closed (handleClient open_ok is_tcp (Main # sched))" if "\<not> open_ok"
  proof -
    let ?f1 = "forwarder_step open_ok is_tcp Main forwarder_init"
    have "main ?f1 = Finished" "s2l ?f1 = NotStarted" "l2s ?f1 = NotStarted" "p1_closed ?f1"
      using that by (simp_all add: forwarder_step_def main_step_def forwarder_init_def)
    with forwarder_finished_run [of ?f1 open_ok is_tcp sched] show ?thesis
      by (simp add: handleClient_def)
  qed
  have h: "main (handleClient open_ok is_tcp (sched @ sched_finish)) = Finished"
    using forwarder_can_finish [OF inv]
    by (simp add: assms handleClient_def forwarder_run_append)
  from a b c d e g h show ?thesis by blast
qed

theorem handleClient_teardown_witness:
  "main (handleClient True True sched_complete) = Finished \<and>
   p1_closed (handleClient True True sched_complete) \<and>
   s2l (handleClient True True sched_complete) = Exited \<and>
   l2s (handleClient True True sched_complete) = Exited \<and>
   p2 (handleClient True True sched_complete) = StreamClosed \<and>
   main (handleClient False True (Main # sched_complete)) = Finished \<and>
   p1_closed (handleClient False True (Main # sched_complete)) \<and>
   p2 (handleClient False True sched_complete) = NotOpened \<and>
   s2l (handleClient False True sched_complete) = NotStarted \<and>
   l2s (handleClient False True sched_complete) = NotStarted"
proof -
  have h1: "main (handleClient True True sched_complete) = Finished" by code_simp
  from handleClient_teardown [OF refl, of True True sched_complete]
    handleClient_teardown [OF refl, of False True sched_complete] h1
  show ?thesis by simp
qed

end
